theory Spec2Isabelle
  imports Main "HOL-Library.AList" "HOL-Library.Char_ord" "HOL-Library.List_Lexorder"
begin

section \<open>Python strings\<close>

text \<open>
  The script \<^verbatim>\<open>scripts/parse_docs.py\<close> works on Python \<^verbatim>\<open>str\<close> values. They are
  modelled as \<^typ>\<open>string\<close>, one \<^typ>\<open>char\<close> per code point, and the character classes
  below are those of Python on the ASCII range (code points below 128). A character
  outside that range is an ordinary character here: no white space, no digit, no letter
  and without case.
\<close>

text \<open>
  \<^verbatim>\<open>str.isspace\<close> and the regular expression class \<^verbatim>\<open>\s\<close> on ASCII: tab, line feed,
  vertical tab, form feed, carriage return, the four separators 0x1C to 0x1F, and space.
\<close>

definition is_space :: "char \<Rightarrow> bool" where
  "is_space c = (c \<in> set [CHR 0x09, CHR 0x0A, CHR 0x0B, CHR 0x0C, CHR 0x0D,
                           CHR 0x1C, CHR 0x1D, CHR 0x1E, CHR 0x1F, CHR 0x20])"

definition is_digit :: "char \<Rightarrow> bool" where
  "is_digit c = (c \<in> set ''0123456789'')"

definition is_upper :: "char \<Rightarrow> bool" where
  "is_upper c = (c \<in> set ''ABCDEFGHIJKLMNOPQRSTUVWXYZ'')"

definition is_lower :: "char \<Rightarrow> bool" where
  "is_lower c = (c \<in> set ''abcdefghijklmnopqrstuvwxyz'')"

definition to_lower :: "char \<Rightarrow> char" where
  "to_lower c =
     (case map_of (zip ''ABCDEFGHIJKLMNOPQRSTUVWXYZ'' ''abcdefghijklmnopqrstuvwxyz'') c of
        Some d \<Rightarrow> d
      | None \<Rightarrow> c)"

text \<open>\<^verbatim>\<open>s.lower()\<close>\<close>

definition lower :: "string \<Rightarrow> string" where
  "lower s = map to_lower s"

text \<open>\<^verbatim>\<open>s.startswith(p)\<close>\<close>

fun startswith :: "string \<Rightarrow> string \<Rightarrow> bool" where
  "startswith s [] = True"
| "startswith [] (p # ps) = False"
| "startswith (c # s) (p # ps) = (c = p \<and> startswith s ps)"

text \<open>\<^verbatim>\<open>s.endswith(p)\<close>\<close>

definition endswith :: "string \<Rightarrow> string \<Rightarrow> bool" where
  "endswith s p = startswith (rev s) (rev p)"

text \<open>\<^verbatim>\<open>s.removeprefix(p)\<close>\<close>

definition removeprefix :: "string \<Rightarrow> string \<Rightarrow> string" where
  "removeprefix s p = (if startswith s p then drop (length p) s else s)"

text \<open>\<^verbatim>\<open>k in s\<close>: \<open>k\<close> occurs in \<open>s\<close> as a contiguous substring.\<close>

fun str_in :: "string \<Rightarrow> string \<Rightarrow> bool" where
  "str_in k [] = (k = [])"
| "str_in k (c # s) = (startswith (c # s) k \<or> str_in k s)"

text \<open>\<^verbatim>\<open>s.strip()\<close> and \<^verbatim>\<open>s.strip(chars)\<close>\<close>

definition strip_where :: "(char \<Rightarrow> bool) \<Rightarrow> string \<Rightarrow> string" where
  "strip_where P s = rev (dropWhile P (rev (dropWhile P s)))"

definition strip :: "string \<Rightarrow> string" where
  "strip s = strip_where is_space s"

definition strip_chars :: "string \<Rightarrow> string \<Rightarrow> string" where
  "strip_chars s chars = strip_where (\<lambda>c. c \<in> set chars) s"

text \<open>
  \<^verbatim>\<open>s.splitlines()\<close>: the line boundaries of Python on the ASCII range are line feed,
  carriage return (with a following line feed, one boundary), vertical tab, form feed
  and the separators 0x1C, 0x1D and 0x1E. The boundaries are not kept, and no empty last
  line is produced for a text that ends in a boundary. \<open>splitlines_acc cur s\<close> has read
  the characters \<open>cur\<close> of the current line.
\<close>

definition is_linebreak :: "char \<Rightarrow> bool" where
  "is_linebreak c = (c \<in> set [CHR 0x0A, CHR 0x0B, CHR 0x0C, CHR 0x0D, CHR 0x1C, CHR 0x1D, CHR 0x1E])"

fun splitlines_acc :: "string \<Rightarrow> string \<Rightarrow> string list" where
  "splitlines_acc cur [] = (if cur = [] then [] else [cur])"
| "splitlines_acc cur [c] = (if is_linebreak c then [cur] else [cur @ [c]])"
| "splitlines_acc cur (c # d # s) =
     (if c = CHR 0x0D \<and> d = CHR 0x0A then cur # splitlines_acc [] s
      else if is_linebreak c then cur # splitlines_acc [] (d # s)
      else splitlines_acc (cur @ [c]) (d # s))"

definition splitlines :: "string \<Rightarrow> string list" where
  "splitlines s = splitlines_acc [] s"

text \<open>\<^verbatim>\<open>sep.join(parts)\<close>\<close>

fun join :: "string \<Rightarrow> string list \<Rightarrow> string" where
  "join sep [] = []"
| "join sep [p] = p"
| "join sep (p # q # ps) = p @ sep @ join sep (q # ps)"

text \<open>\<^verbatim>\<open>int(x)\<close> on a string of ASCII digits.\<close>

definition digit_val :: "char \<Rightarrow> nat" where
  "digit_val c =
     (case map_of (zip ''0123456789'' [0, 1, 2, 3, 4, 5, 6, 7, 8, 9]) c of
        Some d \<Rightarrow> d
      | None \<Rightarrow> 0)"

definition int_of_digits :: "string \<Rightarrow> nat" where
  "int_of_digits s = foldl (\<lambda>acc c. 10 * acc + digit_val c) 0 s"

text \<open>
  \<^verbatim>\<open>re.findall(r'\d+', s)\<close>: the maximal runs of digits, from left to right (\<^verbatim>\<open>\d+\<close> is
  greedy, and the search goes on behind each match).
\<close>

function digit_runs :: "string \<Rightarrow> string list" where
  "digit_runs [] = []"
| "digit_runs (c # s) =
     (if is_digit c then (c # takeWhile is_digit s) # digit_runs (dropWhile is_digit s)
      else digit_runs s)"
  by pat_completeness auto
termination
  by (relation "measure length") (auto simp: length_dropWhile_le less_Suc_eq_le)

section \<open>Category mapper\<close>

definition CATEGORY_MAP :: "(string \<times> string) list" where
  "CATEGORY_MAP =
    [(''Accounts'', ''Authentication''),
     (''Compute'', ''Compute''),
     (''Network'', ''Networking''),
     (''Storage'', ''Storage''),
     (''Sql'', ''Database''),
     (''CosmosDb'', ''Database''),
     (''Redis'', ''Database''),
     (''Monitor'', ''Monitoring''),
     (''Advisor'', ''Governance''),
     (''Policy'', ''Governance''),
     (''Security'', ''Security''),
     (''KeyVault'', ''Security''),
     (''Identity'', ''Identity''),
     (''Aks'', ''Containers''),
     (''ContainerInstance'', ''Containers''),
     (''ContainerRegistry'', ''Containers''),
     (''App'', ''App Services''),
     (''Websites'', ''App Services''),
     (''Functions'', ''App Services''),
     (''Logic'', ''Integration''),
     (''ServiceBus'', ''Messaging''),
     (''EventHub'', ''Messaging''),
     (''EventGrid'', ''Messaging''),
     (''NotificationHubs'', ''Messaging''),
     (''ApiManagement'', ''API Management''),
     (''Resources'', ''Resources''),
     (''ResourceMover'', ''Resources''),
     (''Cdn'', ''Networking''),
     (''Dns'', ''Networking''),
     (''FrontDoor'', ''Networking''),
     (''TrafficManager'', ''Networking''),
     (''VirtualWan'', ''Networking''),
     (''PowerBIEmbedded'', ''Analytics''),
     (''StreamAnalytics'', ''Analytics''),
     (''MachineLearning'', ''AI & ML''),
     (''CognitiveServices'', ''AI & ML''),
     (''DataFactory'', ''Data''),
     (''DataLakeStore'', ''Data''),
     (''Synapse'', ''Data''),
     (''Databricks'', ''Data''),
     (''Batch'', ''Compute''),
     (''HDInsight'', ''Compute''),
     (''ServiceFabric'', ''Compute''),
     (''Automation'', ''Management''),
     (''Backup'', ''Management''),
     (''RecoveryServices'', ''Management''),
     (''OperationalInsights'', ''Monitoring'')]"

text \<open>
  The two loops of \<^verbatim>\<open>get_category\<close> over the rule list, each leaving at its first hit.
\<close>

fun exact_pass :: "(string \<times> string) list \<Rightarrow> string \<Rightarrow> string option" where
  "exact_pass [] suffix = None"
| "exact_pass ((key, cat) # rules) suffix =
     (if lower suffix = lower key then Some cat else exact_pass rules suffix)"

fun partial_pass :: "(string \<times> string) list \<Rightarrow> string \<Rightarrow> string option" where
  "partial_pass [] suffix = None"
| "partial_pass ((key, cat) # rules) suffix =
     (if str_in (lower key) (lower suffix) then Some cat else partial_pass rules suffix)"

definition get_category_in :: "(string \<times> string) list \<Rightarrow> string \<Rightarrow> string" where
  "get_category_in rules module_name =
     (let suffix = removeprefix module_name ''Az.'' in
      case exact_pass rules suffix of
        Some cat \<Rightarrow> cat
      | None \<Rightarrow>
          (case partial_pass rules suffix of
             Some cat \<Rightarrow> cat
           | None \<Rightarrow> ''Other''))"

definition get_category :: "string \<Rightarrow> string" where
  "get_category module_name = get_category_in CATEGORY_MAP module_name"

text \<open>
  The words of the specification: a key equals the suffix, or occurs in it, when case is
  ignored.
\<close>

definition ci_equal :: "string \<Rightarrow> string \<Rightarrow> bool" where
  "ci_equal key suffix = (map to_lower suffix = map to_lower key)"

definition ci_substring :: "string \<Rightarrow> string \<Rightarrow> bool" where
  "ci_substring key suffix =
     (\<exists>before after. map to_lower suffix = before @ map to_lower key @ after)"

subsection \<open>Facts about the string functions\<close>

lemma startswith_iff: "startswith s p \<longleftrightarrow> (\<exists>r. s = p @ r)"
  by (induction s p rule: startswith.induct) auto

lemma startswith_append: "startswith (p @ r) p"
  by (simp add: startswith_iff)

lemma removeprefix_append: "removeprefix (p @ r) p = r"
  by (simp add: removeprefix_def startswith_iff)

lemma str_in_iff: "str_in k s \<longleftrightarrow> (\<exists>before after. s = before @ k @ after)"
proof (induction s)
  case Nil
  then show ?case by auto
next
  case (Cons c s)
  show ?case
  proof
    assume "str_in k (c # s)"
    then consider "startswith (c # s) k" | "str_in k s" by auto
    then show "\<exists>before after. c # s = before @ k @ after"
    proof cases
      case 1
      then obtain r where "c # s = k @ r" by (auto simp: startswith_iff)
      then have "c # s = [] @ k @ r" by simp
      then show ?thesis by blast
    next
      case 2
      with Cons.IH obtain b a where "s = b @ k @ a" by blast
      then have "c # s = (c # b) @ k @ a" by simp
      then show ?thesis by blast
    qed
  next
    assume "\<exists>before after. c # s = before @ k @ after"
    then obtain b a where ba: "c # s = b @ k @ a" by blast
    show "str_in k (c # s)"
    proof (cases b)
      case Nil
      with ba have "startswith (c # s) k" by (simp add: startswith_iff)
      then show ?thesis by simp
    next
      case (Cons x b')
      with ba have "s = b' @ k @ a" by simp
      with Cons.IH show ?thesis by auto
    qed
  qed
qed

text \<open>Lower-casing of the ASCII letters, as rewrite rules for concrete strings.\<close>

lemma to_lower_upper:
  "to_lower CHR ''A'' = CHR ''a'' \<and> to_lower CHR ''B'' = CHR ''b'' \<and> to_lower CHR ''C'' = CHR ''c'' \<and>
   to_lower CHR ''D'' = CHR ''d'' \<and> to_lower CHR ''E'' = CHR ''e'' \<and> to_lower CHR ''F'' = CHR ''f'' \<and>
   to_lower CHR ''G'' = CHR ''g'' \<and> to_lower CHR ''H'' = CHR ''h'' \<and> to_lower CHR ''I'' = CHR ''i'' \<and>
   to_lower CHR ''J'' = CHR ''j'' \<and> to_lower CHR ''K'' = CHR ''k'' \<and> to_lower CHR ''L'' = CHR ''l'' \<and>
   to_lower CHR ''M'' = CHR ''m'' \<and> to_lower CHR ''N'' = CHR ''n'' \<and> to_lower CHR ''O'' = CHR ''o'' \<and>
   to_lower CHR ''P'' = CHR ''p'' \<and> to_lower CHR ''Q'' = CHR ''q'' \<and> to_lower CHR ''R'' = CHR ''r'' \<and>
   to_lower CHR ''S'' = CHR ''s'' \<and> to_lower CHR ''T'' = CHR ''t'' \<and> to_lower CHR ''U'' = CHR ''u'' \<and>
   to_lower CHR ''V'' = CHR ''v'' \<and> to_lower CHR ''W'' = CHR ''w'' \<and> to_lower CHR ''X'' = CHR ''x'' \<and>
   to_lower CHR ''Y'' = CHR ''y'' \<and> to_lower CHR ''Z'' = CHR ''z''"
  by (simp add: to_lower_def)

lemma to_lower_lower:
  "to_lower CHR ''a'' = CHR ''a'' \<and> to_lower CHR ''b'' = CHR ''b'' \<and> to_lower CHR ''c'' = CHR ''c'' \<and>
   to_lower CHR ''d'' = CHR ''d'' \<and> to_lower CHR ''e'' = CHR ''e'' \<and> to_lower CHR ''f'' = CHR ''f'' \<and>
   to_lower CHR ''g'' = CHR ''g'' \<and> to_lower CHR ''h'' = CHR ''h'' \<and> to_lower CHR ''i'' = CHR ''i'' \<and>
   to_lower CHR ''j'' = CHR ''j'' \<and> to_lower CHR ''k'' = CHR ''k'' \<and> to_lower CHR ''l'' = CHR ''l'' \<and>
   to_lower CHR ''m'' = CHR ''m'' \<and> to_lower CHR ''n'' = CHR ''n'' \<and> to_lower CHR ''o'' = CHR ''o'' \<and>
   to_lower CHR ''p'' = CHR ''p'' \<and> to_lower CHR ''q'' = CHR ''q'' \<and> to_lower CHR ''r'' = CHR ''r'' \<and>
   to_lower CHR ''s'' = CHR ''s'' \<and> to_lower CHR ''t'' = CHR ''t'' \<and> to_lower CHR ''u'' = CHR ''u'' \<and>
   to_lower CHR ''v'' = CHR ''v'' \<and> to_lower CHR ''w'' = CHR ''w'' \<and> to_lower CHR ''x'' = CHR ''x'' \<and>
   to_lower CHR ''y'' = CHR ''y'' \<and> to_lower CHR ''z'' = CHR ''z''"
  by (simp add: to_lower_def)

subsection \<open>The two passes of the category mapper\<close>

lemma ci_equal_code: "ci_equal key suffix \<longleftrightarrow> lower suffix = lower key"
  by (simp add: ci_equal_def lower_def)

lemma ci_substring_code: "ci_substring key suffix \<longleftrightarrow> str_in (lower key) (lower suffix)"
  by (simp add: ci_substring_def lower_def str_in_iff)

lemma exact_pass_find:
  "exact_pass rules suffix = map_option snd (find (\<lambda>(key, cat). ci_equal key suffix) rules)"
  by (induction rules suffix rule: exact_pass.induct) (auto simp: ci_equal_code)

lemma partial_pass_find:
  "partial_pass rules suffix =
     map_option snd (find (\<lambda>(key, cat). ci_substring key suffix) rules)"
  by (induction rules suffix rule: partial_pass.induct) (auto simp: ci_substring_code)

lemma get_category_in_find:
  "get_category_in rules module_name =
     (let suffix = removeprefix module_name ''Az.'' in
      case find (\<lambda>(key, cat). ci_equal key suffix) rules of
        Some (key, cat) \<Rightarrow> cat
      | None \<Rightarrow>
          (case find (\<lambda>(key, cat). ci_substring key suffix) rules of
             Some (key, cat) \<Rightarrow> cat
           | None \<Rightarrow> ''Other''))"
  by (auto simp: get_category_in_def exact_pass_find partial_pass_find Let_def
           split: option.splits)

lemma find_first_hit:
  "rules = earlier @ r # later \<Longrightarrow> P r \<Longrightarrow> \<forall>x \<in> set earlier. \<not> P x \<Longrightarrow>
   find P rules = Some r"
  by (induction earlier arbitrary: rules) auto

lemma find_no_hit: "\<forall>x \<in> set rules. \<not> P x \<Longrightarrow> find P rules = None"
  by (induction rules) auto

text \<open>
  Claim C3. \<^const>\<open>get_category\<close> strips the prefix \<^verbatim>\<open>Az.\<close> from the module name and
  returns the category of the first rule of \<^const>\<open>CATEGORY_MAP\<close> whose key equals the suffix
  when case is ignored; if there is none, the category of the first rule, in list order,
  whose key occurs in the suffix when case is ignored; if there is none either,
  \<^verbatim>\<open>Other\<close>. In particular, when no key equals the suffix and several keys occur in it,
  the rule that stands first in the list gives the category.
\<close>

theorem get_category_two_pass:
  "get_category module_name =
     (let suffix = removeprefix module_name ''Az.'' in
      case find (\<lambda>(key, cat). ci_equal key suffix) CATEGORY_MAP of
        Some (key, cat) \<Rightarrow> cat
      | None \<Rightarrow>
          (case find (\<lambda>(key, cat). ci_substring key suffix) CATEGORY_MAP of
             Some (key, cat) \<Rightarrow> cat
           | None \<Rightarrow> ''Other''))
   \<and> (\<forall>earlier key cat later.
         CATEGORY_MAP = earlier @ (key, cat) # later \<and>
         (\<forall>r \<in> set CATEGORY_MAP. \<not> ci_equal (fst r) (removeprefix module_name ''Az.'')) \<and>
         ci_substring key (removeprefix module_name ''Az.'') \<and>
         (\<forall>r \<in> set earlier. \<not> ci_substring (fst r) (removeprefix module_name ''Az.''))
         \<longrightarrow> get_category module_name = cat)"
proof (intro conjI allI impI)
  show "get_category module_name =
     (let suffix = removeprefix module_name ''Az.'' in
      case find (\<lambda>(key, cat). ci_equal key suffix) CATEGORY_MAP of
        Some (key, cat) \<Rightarrow> cat
      | None \<Rightarrow>
          (case find (\<lambda>(key, cat). ci_substring key suffix) CATEGORY_MAP of
             Some (key, cat) \<Rightarrow> cat
           | None \<Rightarrow> ''Other''))"
    unfolding get_category_def by (rule get_category_in_find)
next
  fix earlier key cat later
  let ?s = "removeprefix module_name ''Az.''"
  assume a: "CATEGORY_MAP = earlier @ (key, cat) # later \<and>
         (\<forall>r \<in> set CATEGORY_MAP. \<not> ci_equal (fst r) ?s) \<and>
         ci_substring key ?s \<and>
         (\<forall>r \<in> set earlier. \<not> ci_substring (fst r) ?s)"
  have "find (\<lambda>(key, cat). ci_equal key ?s) CATEGORY_MAP = None"
    using a by (intro find_no_hit) (auto simp: case_prod_beta)
  moreover have "find (\<lambda>(key, cat). ci_substring key ?s) CATEGORY_MAP = Some (key, cat)"
    using a by (intro find_first_hit[where earlier = earlier and later = later])
      (auto simp: case_prod_beta)
  ultimately show "get_category module_name = cat"
    by (simp add: get_category_def get_category_in_find)
qed

text \<open>
  The module \<^verbatim>\<open>Az.AppComplianceAutomation\<close>: no key equals its suffix, the keys
  \<^verbatim>\<open>App\<close> (rule 17) and \<^verbatim>\<open>Automation\<close> (rule 44) both occur in it, and the earlier
  rule decides.
\<close>

theorem get_category_two_pass_witness:
  "ci_substring ''App'' ''AppComplianceAutomation'' \<and>
   ci_substring ''Automation'' ''AppComplianceAutomation'' \<and>
   get_category ''Az.AppComplianceAutomation'' = ''App Services''"
proof -
  let ?s = "''AppComplianceAutomation''"
  define earlier where "earlier = take 16 CATEGORY_MAP"
  define later where "later = drop 17 CATEGORY_MAP"
  have s: "removeprefix ''Az.AppComplianceAutomation'' ''Az.'' = ?s"
    by (simp add: removeprefix_def)
  have split: "CATEGORY_MAP = earlier @ (''App'', ''App Services'') # later"
    unfolding earlier_def later_def by (simp add: CATEGORY_MAP_def)
  have no_exact: "\<forall>r \<in> set CATEGORY_MAP. \<not> ci_equal (fst r) ?s"
    by (simp add: CATEGORY_MAP_def ci_equal_code lower_def to_lower_upper to_lower_lower)
  have hit: "ci_substring ''App'' ?s"
    by (simp add: ci_substring_code lower_def to_lower_upper to_lower_lower)
  have hit2: "ci_substring ''Automation'' ?s"
    by (simp add: ci_substring_code lower_def to_lower_upper to_lower_lower)
  have early: "\<forall>r \<in> set earlier. \<not> ci_substring (fst r) ?s"
    unfolding earlier_def
    by (simp add: CATEGORY_MAP_def ci_substring_code lower_def to_lower_upper to_lower_lower)
  from get_category_two_pass[of "''Az.AppComplianceAutomation''"]
  have "\<forall>earlier key cat later.
         CATEGORY_MAP = earlier @ (key, cat) # later \<and>
         (\<forall>r \<in> set CATEGORY_MAP. \<not> ci_equal (fst r) ?s) \<and>
         ci_substring key ?s \<and>
         (\<forall>r \<in> set earlier. \<not> ci_substring (fst r) ?s)
         \<longrightarrow> get_category ''Az.AppComplianceAutomation'' = cat"
    unfolding s by (rule conjunct2)
  then have "CATEGORY_MAP = earlier @ (''App'', ''App Services'') # later \<and>
         (\<forall>r \<in> set CATEGORY_MAP. \<not> ci_equal (fst r) ?s) \<and>
         ci_substring ''App'' ?s \<and>
         (\<forall>r \<in> set earlier. \<not> ci_substring (fst r) ?s)
         \<longrightarrow> get_category ''Az.AppComplianceAutomation'' = ''App Services''"
    by blast
  with split no_exact hit early
  have "get_category ''Az.AppComplianceAutomation'' = ''App Services''"
    by blast
  with hit hit2 show ?thesis by blast
qed

section \<open>The documentation tree\<close>

text \<open>
  The script reads a directory tree. A node is a file with its name and its decoded text
  (\<^verbatim>\<open>read_text(encoding='utf-8', errors='replace')\<close> never fails on the bytes of a file), or
  a directory with its name and its entries in the order in which \<^verbatim>\<open>iterdir\<close> lists them.
  Symbolic links, permissions and other I/O failures are outside the model.
\<close>

datatype fsnode = File string string | Dir string "fsnode list"

datatype error = FileNotFoundError | NotADirectoryError | IsADirectoryError | IndexError

fun node_name :: "fsnode \<Rightarrow> string" where
  "node_name (File name content) = name"
| "node_name (Dir name entries) = name"

fun is_dir :: "fsnode \<Rightarrow> bool" where
  "is_dir (File name content) = False"
| "is_dir (Dir name entries) = True"

section \<open>Version resolver\<close>

text \<open>
  \<^verbatim>\<open>[d for d in entries if d.is_dir() and d.name.startswith('azps-')]\<close>
\<close>

definition azps_dirs :: "fsnode list \<Rightarrow> fsnode list" where
  "azps_dirs entries = filter (\<lambda>d. is_dir d \<and> startswith (node_name d) ''azps-'') entries"

text \<open>
  The loop \<^verbatim>\<open>for sub in root.iterdir(): if sub.is_dir(): candidates += [...]\<close>.
\<close>

fun deeper_candidates :: "fsnode list \<Rightarrow> fsnode list \<Rightarrow> fsnode list" where
  "deeper_candidates [] candidates = candidates"
| "deeper_candidates (File name content # subs) candidates = deeper_candidates subs candidates"
| "deeper_candidates (Dir name entries # subs) candidates =
     deeper_candidates subs (candidates @ azps_dirs entries)"

text \<open>
  \<^verbatim>\<open>ver_key\<close>: the tuple of the integers in the name. Python compares tuples
  lexicographically, a proper prefix being smaller; this is the order of
  \<^typ>\<open>nat list\<close> here.
\<close>

definition ver_key :: "fsnode \<Rightarrow> nat list" where
  "ver_key d = map int_of_digits (digit_runs (node_name d))"

text \<open>
  \<^verbatim>\<open>max(items, key=key)\<close> on a non-empty sequence: the running maximum is replaced only
  by an item whose key is strictly greater, so the first of several greatest items wins.
\<close>

fun max_by :: "('a \<Rightarrow> 'k::linorder) \<Rightarrow> 'a \<Rightarrow> 'a list \<Rightarrow> 'a" where
  "max_by key best [] = best"
| "max_by key best (x # xs) = max_by key (if key x > key best then x else best) xs"

fun find_latest_azps_dir :: "fsnode \<Rightarrow> error + fsnode" where
  "find_latest_azps_dir (File name content) = Inl NotADirectoryError"
| "find_latest_azps_dir (Dir name entries) =
     (let candidates = azps_dirs entries;
          candidates = (if candidates = [] then deeper_candidates entries candidates
                        else candidates)
      in case candidates of
           [] \<Rightarrow> Inl FileNotFoundError
         | d # ds \<Rightarrow> Inr (max_by ver_key d ds))"

text \<open>
  The words of the specification: a candidate is a directory whose name starts with
  \<^verbatim>\<open>azps-\<close>; the candidates of the first level are entries of the root, those of the
  second level are entries of a directory that is an entry of the root; the second level
  counts only when the first has no candidate.
\<close>

definition is_candidate :: "fsnode \<Rightarrow> bool" where
  "is_candidate d = (is_dir d \<and> (\<exists>rest. node_name d = ''azps-'' @ rest))"

definition level1 :: "fsnode list \<Rightarrow> fsnode set" where
  "level1 entries = {d \<in> set entries. is_candidate d}"

definition level2 :: "fsnode list \<Rightarrow> fsnode set" where
  "level2 entries =
     {d. \<exists>name subentries. Dir name subentries \<in> set entries \<and> d \<in> set subentries \<and>
          is_candidate d}"

definition candidates_of :: "fsnode list \<Rightarrow> fsnode set" where
  "candidates_of entries = (if level1 entries \<noteq> {} then level1 entries else level2 entries)"

lemma set_azps_dirs: "set (azps_dirs entries) = level1 entries"
  by (auto simp: azps_dirs_def level1_def is_candidate_def startswith_iff)

lemma set_deeper_candidates:
  "set (deeper_candidates entries candidates) = set candidates \<union> level2 entries"
proof (induction entries candidates rule: deeper_candidates.induct)
  case (1 candidates)
  then show ?case by (simp add: level2_def)
next
  case (2 name content subs candidates)
  have "level2 (File name content # subs) = level2 subs" by (auto simp: level2_def)
  with 2 show ?case by simp
next
  case (3 name entries subs candidates)
  have "level2 (Dir name entries # subs) = level1 entries \<union> level2 subs"
    by (auto simp: level2_def level1_def)
  with 3 show ?case by (auto simp: set_azps_dirs)
qed

lemma max_by_mem: "max_by key best xs \<in> set (best # xs)"
  by (induction xs arbitrary: best) auto

lemma max_by_ge_best: "key best \<le> key (max_by key best xs)"
proof (induction xs arbitrary: best)
  case Nil
  then show ?case by simp
next
  case (Cons x xs)
  have "key best \<le> key (if key x > key best then x else best)"
    by (simp add: less_imp_le)
  also have "\<dots> \<le> key (max_by key (if key x > key best then x else best) xs)"
    by (rule Cons.IH)
  finally show ?case by simp
qed

lemma max_by_greatest: "y \<in> set (best # xs) \<Longrightarrow> key y \<le> key (max_by key best xs)"
proof (induction xs arbitrary: best)
  case Nil
  then show ?case by simp
next
  case (Cons x xs)
  let ?b = "if key x > key best then x else best"
  from Cons.prems consider "y = best" | "y = x" | "y \<in> set xs" by auto
  then show ?case
  proof cases
    case 1
    then show ?thesis using max_by_ge_best[of key best "x # xs"] by simp
  next
    case 2
    have "key x \<le> key ?b" by (simp add: not_less)
    also have "\<dots> \<le> key (max_by key ?b xs)" by (rule max_by_ge_best)
    finally show ?thesis using 2 by simp
  next
    case 3
    then have "key y \<le> key (max_by key ?b xs)" by (intro Cons.IH) simp
    then show ?thesis by simp
  qed
qed

lemma is_candidate_code:
  "is_candidate d \<longleftrightarrow> is_dir d \<and> startswith (node_name d) ''azps-''"
  by (simp add: is_candidate_def startswith_iff)

lemma ver_key_examples:
  "ver_key (Dir ''azps-1.2.3'' []) = [1, 2, 3] \<and>
   ver_key (Dir ''azps-1.10.0'' []) = [1, 10, 0] \<and>
   ver_key (Dir ''azps-1.9.9'' []) = [1, 9, 9]"
  by (simp add: ver_key_def is_digit_def int_of_digits_def digit_val_def)

text \<open>
  Claim C1. Applied to a root directory, \<^const>\<open>find_latest_azps_dir\<close> takes as candidates
  the directories among the entries of the root whose names start with \<^verbatim>\<open>azps-\<close>, and
  only when there is none the such directories one level deeper. It raises
  \<^verbatim>\<open>FileNotFoundError\<close> if and only if neither level has a candidate; otherwise it returns
  a candidate whose tuple of integers parsed from the name is greatest, in the
  lexicographic order of tuples, among all candidates.
\<close>

theorem find_latest_azps_dir_greatest:
  "(find_latest_azps_dir (Dir name entries) = Inl FileNotFoundError
      \<longleftrightarrow> level1 entries = {} \<and> level2 entries = {})
   \<and> (candidates_of entries \<noteq> {} \<longrightarrow>
        (\<exists>d. find_latest_azps_dir (Dir name entries) = Inr d \<and> d \<in> candidates_of entries \<and>
             (\<forall>d' \<in> candidates_of entries. ver_key d' \<le> ver_key d)))"
proof -
  define cs where
    "cs = (if azps_dirs entries = [] then deeper_candidates entries (azps_dirs entries)
           else azps_dirs entries)"
  have set_cs: "set cs = candidates_of entries"
    by (auto simp: cs_def candidates_of_def set_deeper_candidates set_azps_dirs[symmetric])
  have res: "find_latest_azps_dir (Dir name entries) =
      (case cs of [] \<Rightarrow> Inl FileNotFoundError | d # ds \<Rightarrow> Inr (max_by ver_key d ds))"
    by (simp add: cs_def Let_def)
  have empty_iff: "candidates_of entries = {} \<longleftrightarrow> level1 entries = {} \<and> level2 entries = {}"
    by (auto simp: candidates_of_def)
  show ?thesis
  proof (cases cs)
    case Nil
    with set_cs have "candidates_of entries = {}" by simp
    with Nil res empty_iff show ?thesis by simp
  next
    case (Cons d ds)
    with set_cs have ne: "candidates_of entries \<noteq> {}" by auto
    let ?m = "max_by ver_key d ds"
    have "?m \<in> candidates_of entries"
      using max_by_mem[of ver_key d ds] set_cs[symmetric] Cons by simp
    moreover have "\<forall>d' \<in> candidates_of entries. ver_key d' \<le> ver_key ?m"
      using max_by_greatest[of _ d ds ver_key] set_cs[symmetric] Cons by simp
    moreover have "find_latest_azps_dir (Dir name entries) = Inr ?m"
      using res Cons by simp
    ultimately show ?thesis using ne empty_iff by auto
  qed
qed

text \<open>
  The three version directories of the specification's regression test: comparing the
  names as strings would pick \<^verbatim>\<open>azps-1.9.9\<close>; the tuples \<open>(1, 2, 3)\<close>, \<open>(1, 10, 0)\<close>
  and \<open>(1, 9, 9)\<close> leave only \<^verbatim>\<open>azps-1.10.0\<close> as the greatest candidate.
\<close>

theorem find_latest_azps_dir_greatest_witness:
  "candidates_of [Dir ''azps-1.2.3'' [], Dir ''azps-1.10.0'' [], Dir ''azps-1.9.9'' []] =
     {Dir ''azps-1.2.3'' [], Dir ''azps-1.10.0'' [], Dir ''azps-1.9.9'' []} \<and>
   find_latest_azps_dir
     (Dir ''docs'' [Dir ''azps-1.2.3'' [], Dir ''azps-1.10.0'' [], Dir ''azps-1.9.9'' []]) =
     Inr (Dir ''azps-1.10.0'' [])"
proof -
  let ?es = "[Dir ''azps-1.2.3'' [], Dir ''azps-1.10.0'' [], Dir ''azps-1.9.9'' []]"
  let ?r = "find_latest_azps_dir (Dir ''docs'' ?es)"
  have l1: "level1 ?es = set ?es"
    by (auto simp: level1_def is_candidate_code)
  then have cands: "candidates_of ?es = set ?es"
    by (simp add: candidates_of_def)
  then have "candidates_of ?es \<noteq> {}" by simp
  with find_latest_azps_dir_greatest[of "''docs''" ?es]
  have "\<exists>d. ?r = Inr d \<and> d \<in> candidates_of ?es \<and>
             (\<forall>d' \<in> candidates_of ?es. ver_key d' \<le> ver_key d)"
    by (elim conjE impE) assumption
  then obtain d where d1: "?r = Inr d" and d2: "d \<in> set ?es"
      and d3: "\<forall>d' \<in> set ?es. ver_key d' \<le> ver_key d"
    unfolding cands by (elim exE conjE)
  from d3 have ge: "[1, 10, 0] \<le> ver_key d"
    using ver_key_examples by simp
  from d2 consider "d = Dir ''azps-1.2.3'' []" | "d = Dir ''azps-1.10.0'' []"
    | "d = Dir ''azps-1.9.9'' []" by auto
  then have "d = Dir ''azps-1.10.0'' []"
  proof cases
    case 1
    with ge ver_key_examples show ?thesis by simp
  next
    case 2
    then show ?thesis .
  next
    case 3
    with ge ver_key_examples show ?thesis by simp
  qed
  with d1 cands show ?thesis by simp
qed

section \<open>Regular expressions of the script\<close>

text \<open>
  The script matches text with Python's backtracking regular expressions. Each
  expression is translated into a function that tries the alternatives in the order of
  the matcher and takes the first that succeeds. \<open>first_some f xs\<close> is that choice: the
  first element of \<open>xs\<close> on which \<open>f\<close> succeeds.
\<close>

fun first_some :: "('a \<Rightarrow> 'b option) \<Rightarrow> 'a list \<Rightarrow> 'b option" where
  "first_some f [] = None"
| "first_some f (x # xs) = (case f x of Some y \<Rightarrow> Some y | None \<Rightarrow> first_some f xs)"

text \<open>
  \<^verbatim>\<open>\s*\n\<close> at the start of \<open>s\<close>: the texts that remain behind a match, in the order
  in which the greedy \<^verbatim>\<open>\s*\<close> gives characters back (longest run of white space
  first). A match ends behind a line feed of the leading white space of \<open>s\<close>.
\<close>

fun ws_nl :: "string \<Rightarrow> string list" where
  "ws_nl [] = []"
| "ws_nl (c # s) = (if is_space c then ws_nl s @ (if c = CHR 0x0A then [s] else []) else [])"

text \<open>
  A literal matched under \<^verbatim>\<open>re.IGNORECASE\<close>: character by character, ignoring the
  case of ASCII letters.
\<close>

fun ci_startswith :: "string \<Rightarrow> string \<Rightarrow> bool" where
  "ci_startswith s [] = True"
| "ci_startswith [] (p # ps) = False"
| "ci_startswith (c # s) (p # ps) = (to_lower c = to_lower p \<and> ci_startswith s ps)"

section \<open>Front-matter parser\<close>

text \<open>
  \<^verbatim>\<open>re.match(r'^---\s*\n(.*?\n)---', text, re.DOTALL)\<close>, group 1. \<open>until_close\<close> is
  the lazy group \<^verbatim>\<open>(.*?\n)\<close> followed by \<^verbatim>\<open>---\<close>: it ends at the first line feed
  that is followed by three dashes.
\<close>

fun until_close :: "string \<Rightarrow> string option" where
  "until_close [] = None"
| "until_close (c # s) =
     (if c = CHR 0x0A \<and> startswith s ''---'' then Some [c]
      else map_option ((#) c) (until_close s))"

definition front_matter_block :: "string \<Rightarrow> string option" where
  "front_matter_block text =
     (if startswith text ''---'' then first_some until_close (ws_nl (drop 3 text)) else None)"

text \<open>
  \<^verbatim>\<open>line.split(':', 1)\<close>: one part when the line has no colon, else the parts before
  and behind the first colon.
\<close>

definition split_colon :: "string \<Rightarrow> string list" where
  "split_colon line =
     (if CHR '':'' \<in> set line
      then [takeWhile (\<lambda>c. c \<noteq> CHR '':'') line, tl (dropWhile (\<lambda>c. c \<noteq> CHR '':'') line)]
      else [line])"

text \<open>
  The loop over the lines of the block. The dictionary \<^verbatim>\<open>result\<close> is an association
  list; \<^const>\<open>AList.update\<close> replaces the value of a key that is present and appends a
  new key, as an assignment to a Python dictionary does. The characters stripped from
  the value are the double and the single quote.
\<close>

fun front_matter_lines :: "string list \<Rightarrow> (string \<times> string) list \<Rightarrow> (string \<times> string) list" where
  "front_matter_lines [] result = result"
| "front_matter_lines (line # lines) result =
     (case split_colon line of
        [k, v] \<Rightarrow> front_matter_lines lines
                    (AList.update (strip k) (strip_chars (strip v) [CHR 0x22, CHR 0x27]) result)
      | _ \<Rightarrow> front_matter_lines lines result)"

definition parse_front_matter :: "string \<Rightarrow> (string \<times> string) list" where
  "parse_front_matter text =
     (case front_matter_block text of
        None \<Rightarrow> []
      | Some block \<Rightarrow> front_matter_lines (splitlines block) [])"

section \<open>Section extractor\<close>

text \<open>
  \<^verbatim>\<open>re.search(rf'## {re.escape(section_name)}\s*\n(.*?)(?=\n## |\Z)', text,
  re.DOTALL | re.IGNORECASE)\<close>, group 1. \<open>section_body\<close> is the lazy group with its
  look-ahead: the shortest text that is followed by a line feed and \<^verbatim>\<open>## \<close>, or by the
  end of the text. It always matches, so the first way to match \<^verbatim>\<open>\s*\n\<close> is taken.
  \<open>search_section\<close> tries every start position from the left.
\<close>

fun section_body :: "string \<Rightarrow> string" where
  "section_body [] = []"
| "section_body (c # s) =
     (if startswith (c # s) ''\<newline>## '' then [] else c # section_body s)"

definition match_section_here :: "string \<Rightarrow> string \<Rightarrow> string option" where
  "match_section_here section_name s =
     (let heading = ''## '' @ section_name in
      if ci_startswith s heading
      then first_some (\<lambda>r. Some (section_body r)) (ws_nl (drop (length heading) s))
      else None)"

fun search_section :: "string \<Rightarrow> string \<Rightarrow> string option" where
  "search_section section_name [] = match_section_here section_name []"
| "search_section section_name (c # s) =
     (case match_section_here section_name (c # s) of
        Some g \<Rightarrow> Some g
      | None \<Rightarrow> search_section section_name s)"

definition extract_section :: "string \<Rightarrow> string \<Rightarrow> string" where
  "extract_section text section_name =
     (case search_section section_name text of Some g \<Rightarrow> strip g | None \<Rightarrow> [])"

section \<open>Code block extractor\<close>

text \<open>
  \<^verbatim>\<open>re.findall(r'```(?:powershell|ps1|posh)?\s*\n(.*?)```', section_text,
  re.DOTALL | re.IGNORECASE)\<close>. \<open>until_fence\<close> is the lazy group followed by the closing
  fence: the group and the text behind the match. \<open>after_tag\<close> lists the ways to match
  the optional language tag: each alternative that matches, in order, then no tag.
\<close>

fun until_fence :: "string \<Rightarrow> (string \<times> string) option" where
  "until_fence [] = None"
| "until_fence (c # s) =
     (if startswith (c # s) ''```'' then Some ([], drop 3 (c # s))
      else map_option (\<lambda>(g, r). (c # g, r)) (until_fence s))"

definition after_tag :: "string \<Rightarrow> string list" where
  "after_tag s =
     map (\<lambda>t. drop (length t) s) (filter (ci_startswith s) [''powershell'', ''ps1'', ''posh''])
     @ [s]"

definition match_block_here :: "string \<Rightarrow> (string \<times> string) option" where
  "match_block_here s =
     (if startswith s ''```'' then first_some until_fence (concat (map ws_nl (after_tag (drop 3 s))))
      else None)"

lemma until_fence_length: "until_fence s = Some (g, r) \<Longrightarrow> length r < length s"
  by (induction s arbitrary: g) (auto split: if_splits)

lemma ws_nl_length: "r \<in> set (ws_nl s) \<Longrightarrow> length r < length s"
  by (induction s) (auto split: if_splits)

lemma first_some_SomeD: "first_some f xs = Some y \<Longrightarrow> \<exists>x \<in> set xs. f x = Some y"
  by (induction xs) (auto split: option.splits)

lemma after_tag_length: "r \<in> set (after_tag s) \<Longrightarrow> length r \<le> length s"
  by (auto simp: after_tag_def)

lemma match_block_here_length:
  assumes "match_block_here s = Some (g, r)"
  shows "length r < length s"
proof -
  from assms have st: "startswith s ''```''"
    and fs: "first_some until_fence (concat (map ws_nl (after_tag (drop 3 s)))) = Some (g, r)"
    by (auto simp: match_block_here_def split: if_splits)
  from first_some_SomeD[OF fs] obtain t u where t: "t \<in> set (after_tag (drop 3 s))"
    and u: "u \<in> set (ws_nl t)" and f: "until_fence u = Some (g, r)"
    by auto
  have "length r < length u" using f by (rule until_fence_length)
  also have "length u < length t" using u by (rule ws_nl_length)
  also have "length t \<le> length (drop 3 s)" using t by (rule after_tag_length)
  finally show ?thesis by simp
qed

text \<open>
  \<^verbatim>\<open>findall\<close> returns the groups of the matches from left to right; the search goes
  on behind the end of each match.
\<close>

function findall_blocks :: "string \<Rightarrow> string list" where
  "findall_blocks [] = []"
| "findall_blocks (c # s) =
     (case match_block_here (c # s) of
        Some (g, r) \<Rightarrow> g # findall_blocks r
      | None \<Rightarrow> findall_blocks s)"
  by pat_completeness auto
termination
  by (relation "measure length") (auto dest: match_block_here_length)

text \<open>
  \<^verbatim>\<open>xs[:n]\<close>: a negative \<open>n\<close> counts from the end of the list.
\<close>

definition py_slice_to :: "'a list \<Rightarrow> int \<Rightarrow> 'a list" where
  "py_slice_to xs n = (if 0 \<le> n then take (nat n) xs else take (nat (int (length xs) + n)) xs)"

text \<open>
  The body of the loop over the blocks, and the loop, which appends to \<^verbatim>\<open>cleaned\<close>.
\<close>

definition clean_block :: "string \<Rightarrow> string" where
  "clean_block b =
     strip (join ''\<newline>'' (filter (\<lambda>l. \<not> startswith (strip l) ''#'') (splitlines (strip b))))"

fun clean_blocks :: "string list \<Rightarrow> string list \<Rightarrow> string list" where
  "clean_blocks [] cleaned = cleaned"
| "clean_blocks (b # bs) cleaned =
     (let code = clean_block b in
      if code \<noteq> [] then clean_blocks bs (cleaned @ [code]) else clean_blocks bs cleaned)"

definition extract_code_blocks :: "string \<Rightarrow> int \<Rightarrow> string list" where
  "extract_code_blocks section_text max_blocks =
     clean_blocks (py_slice_to (findall_blocks section_text) max_blocks) []"

section \<open>Properties of the front-matter parser\<close>

text \<open>
  The words of the specification: a field is read from a line that has a colon, the key
  being the trimmed text before the first colon and the value the trimmed text behind
  it, without its surrounding quote characters.
\<close>

definition field_of_line :: "string \<Rightarrow> (string \<times> string) option" where
  "field_of_line line =
     (if CHR '':'' \<in> set line
      then Some (strip (takeWhile (\<lambda>c. c \<noteq> CHR '':'') line),
                 strip_chars (strip (tl (dropWhile (\<lambda>c. c \<noteq> CHR '':'') line)))
                   [CHR 0x22, CHR 0x27])
      else None)"


lemma first_some_NoneD: "first_some f xs = None \<Longrightarrow> x \<in> set xs \<Longrightarrow> f x = None"
  by (induction xs) (auto split: option.splits)

lemma ws_nl_iff:
  "r \<in> set (ws_nl s) \<longleftrightarrow>
     (\<exists>ws. s = ws @ CHR 0x0A # r \<and> (\<forall>c \<in> set ws. is_space c))"
proof (induction s)
  case Nil
  then show ?case by simp
next
  case (Cons c s)
  show ?case
  proof (cases "is_space c")
    case False
    have "\<not> (\<exists>ws. c # s = ws @ CHR 0x0A # r \<and> (\<forall>c \<in> set ws. is_space c))"
    proof
      assume "\<exists>ws. c # s = ws @ CHR 0x0A # r \<and> (\<forall>c \<in> set ws. is_space c)"
      then obtain ws where ws: "c # s = ws @ CHR 0x0A # r" "\<forall>c \<in> set ws. is_space c" by blast
      then show False using False by (cases ws) (auto simp: is_space_def)
    qed
    with False show ?thesis by simp
  next
    case True
    show ?thesis
    proof
      assume "r \<in> set (ws_nl (c # s))"
      with True consider "r \<in> set (ws_nl s)" | "c = CHR 0x0A" "r = s"
        by (auto split: if_splits)
      then show "\<exists>ws. c # s = ws @ CHR 0x0A # r \<and> (\<forall>c \<in> set ws. is_space c)"
      proof cases
        case 1
        with Cons.IH obtain ws where "s = ws @ CHR 0x0A # r" "\<forall>c \<in> set ws. is_space c" by blast
        with True have "c # s = (c # ws) @ CHR 0x0A # r \<and> (\<forall>x \<in> set (c # ws). is_space x)"
          by simp
        then show ?thesis by blast
      next
        case 2
        then have "c # s = [] @ CHR 0x0A # r \<and> (\<forall>x \<in> set []. is_space x)" by simp
        then show ?thesis by blast
      qed
    next
      assume "\<exists>ws. c # s = ws @ CHR 0x0A # r \<and> (\<forall>c \<in> set ws. is_space c)"
      then obtain ws where ws: "c # s = ws @ CHR 0x0A # r" "\<forall>c \<in> set ws. is_space c" by blast
      show "r \<in> set (ws_nl (c # s))"
      proof (cases ws)
        case Nil
        with ws True show ?thesis by simp
      next
        case (Cons x ws')
        with ws have "s = ws' @ CHR 0x0A # r" "\<forall>c \<in> set ws'. is_space c" by auto
        with Cons.IH have "r \<in> set (ws_nl s)" by blast
        with True show ?thesis by simp
      qed
    qed
  qed
qed

lemma until_close_sound:
  "until_close s = Some b \<Longrightarrow> \<exists>b' rest. b = b' @ [CHR 0x0A] \<and> s = b @ ''---'' @ rest"
proof (induction s arbitrary: b)
  case Nil
  then show ?case by simp
next
  case (Cons c s)
  show ?case
  proof (cases "c = CHR 0x0A \<and> startswith s ''---''")
    case True
    with Cons.prems have "b = [] @ [CHR 0x0A]" by simp
    moreover from True obtain rest where "s = ''---'' @ rest" by (auto simp: startswith_iff)
    ultimately have "b = [] @ [CHR 0x0A] \<and> c # s = b @ ''---'' @ rest" using True by simp
    then show ?thesis by blast
  next
    case False
    with Cons.prems obtain b0 where b0: "until_close s = Some b0" "b = c # b0" by auto
    from Cons.IH[OF b0(1)] obtain b' rest where "b0 = b' @ [CHR 0x0A]" "s = b0 @ ''---'' @ rest"
      by blast
    with b0 have "b = (c # b') @ [CHR 0x0A] \<and> c # s = b @ ''---'' @ rest" by simp
    then show ?thesis by blast
  qed
qed

lemma until_close_shortest:
  "s = (b' @ [CHR 0x0A]) @ ''---'' @ rest \<Longrightarrow>
   \<exists>b. until_close s = Some b \<and> length b \<le> length (b' @ [CHR 0x0A])"
proof (induction s arbitrary: b')
  case Nil
  then show ?case by simp
next
  case (Cons c s)
  show ?case
  proof (cases "c = CHR 0x0A \<and> startswith s ''---''")
    case True
    then show ?thesis by simp
  next
    case False
    show ?thesis
    proof (cases b')
      case Nil
      with Cons.prems have "c = CHR 0x0A" "s = ''---'' @ rest" by simp_all
      with False show ?thesis by (simp add: startswith_iff)
    next
      case (Cons x b'')
      with Cons.prems have s: "s = (b'' @ [CHR 0x0A]) @ ''---'' @ rest" by simp
      from Cons.IH[OF s] obtain b0 where "until_close s = Some b0"
        "length b0 \<le> length (b'' @ [CHR 0x0A])" by blast
      with False Cons show ?thesis by simp
    qed
  qed
qed

lemma first_colon:
  "CHR '':'' \<in> set line \<Longrightarrow>
   line = takeWhile (\<lambda>c. c \<noteq> CHR '':'') line @ CHR '':'' # tl (dropWhile (\<lambda>c. c \<noteq> CHR '':'') line)
   \<and> CHR '':'' \<notin> set (takeWhile (\<lambda>c. c \<noteq> CHR '':'') line)"
proof -
  assume a: "CHR '':'' \<in> set line"
  let ?P = "\<lambda>c. c \<noteq> CHR '':''"
  from a have "dropWhile ?P line \<noteq> []" by simp
  moreover have "hd (dropWhile ?P line) = CHR '':''"
    using hd_dropWhile[of ?P line] calculation by auto
  ultimately have "dropWhile ?P line = CHR '':'' # tl (dropWhile ?P line)"
    by (cases "dropWhile ?P line") auto
  then have "line = takeWhile ?P line @ CHR '':'' # tl (dropWhile ?P line)"
    using takeWhile_dropWhile_id[of ?P line] by simp
  moreover have "CHR '':'' \<notin> set (takeWhile ?P line)"
    using set_takeWhileD by fastforce
  ultimately show ?thesis by blast
qed

lemma front_matter_lines_fields:
  "front_matter_lines lines result =
     fold (\<lambda>(k, v). AList.update k v) (List.map_filter field_of_line lines) result"
proof (induction lines arbitrary: result)
  case Nil
  then show ?case by simp
next
  case (Cons line lines)
  show ?case
  proof (cases "CHR '':'' \<in> set line")
    case True
    then show ?thesis
      by (simp add: split_colon_def field_of_line_def Cons.IH)
  next
    case False
    then show ?thesis
      by (simp add: split_colon_def field_of_line_def Cons.IH)
  qed
qed

lemma map_of_fold_update:
  "map_of (fold (\<lambda>(k, v). AList.update k v) fields result) = map_of (rev fields @ result)"
proof (induction fields arbitrary: result)
  case Nil
  then show ?case by simp
next
  case (Cons f fields)
  obtain k v where f: "f = (k, v)" by (cases f)
  have "map_of (fold (\<lambda>(k, v). AList.update k v) (f # fields) result) =
        map_of (rev fields @ AList.update k v result)"
    using Cons.IH[of "AList.update k v result"] f by simp
  also have "\<dots> = map_of (rev fields @ (k, v) # result)"
    by (simp add: update_conv')
  finally show ?case using f by simp
qed

lemma distinct_fold_update:
  "distinct (map fst result) \<Longrightarrow>
   distinct (map fst (fold (\<lambda>(k, v). AList.update k v) fields result))"
  by (induction fields arbitrary: result) (auto simp: distinct_update)

lemma map_of_rev_last:
  "map_of (rev fields) key = Some v \<longleftrightarrow>
     (\<exists>before after. fields = before @ (key, v) # after \<and> key \<notin> fst ` set after)"
proof (induction fields rule: rev_induct)
  case Nil
  then show ?case by simp
next
  case (snoc f fields)
  obtain k w where f: "f = (k, w)" by (cases f)
  show ?case
  proof (cases "k = key")
    case True
    have "(\<exists>before after. fields @ [f] = before @ (key, v) # after \<and> key \<notin> fst ` set after)
          \<longleftrightarrow> w = v"
    proof
      assume "\<exists>before after. fields @ [f] = before @ (key, v) # after \<and> key \<notin> fst ` set after"
      then obtain before after where ba: "fields @ [f] = before @ (key, v) # after"
        "key \<notin> fst ` set after" by blast
      show "w = v"
      proof (cases after rule: rev_cases)
        case Nil
        with ba f show ?thesis by simp
      next
        case (snoc after' a)
        with ba have "a = f" by simp
        with snoc ba(2) f True show ?thesis by force
      qed
    next
      assume "w = v"
      with f True have "fields @ [f] = fields @ (key, v) # [] \<and> key \<notin> fst ` set []" by simp
      then show "\<exists>before after. fields @ [f] = before @ (key, v) # after \<and> key \<notin> fst ` set after"
        by blast
    qed
    with f True show ?thesis by simp
  next
    case False
    have "(\<exists>before after. fields @ [f] = before @ (key, v) # after \<and> key \<notin> fst ` set after)
          \<longleftrightarrow> (\<exists>before after. fields = before @ (key, v) # after \<and> key \<notin> fst ` set after)"
    proof
      assume "\<exists>before after. fields @ [f] = before @ (key, v) # after \<and> key \<notin> fst ` set after"
      then obtain before after where ba: "fields @ [f] = before @ (key, v) # after"
        "key \<notin> fst ` set after" by blast
      show "\<exists>before after. fields = before @ (key, v) # after \<and> key \<notin> fst ` set after"
      proof (cases after rule: rev_cases)
        case Nil
        with ba f False show ?thesis by simp
      next
        case (snoc after' a)
        with ba have "fields = before @ (key, v) # after'" "key \<notin> fst ` set after'" by auto
        then show ?thesis by blast
      qed
    next
      assume "\<exists>before after. fields = before @ (key, v) # after \<and> key \<notin> fst ` set after"
      then obtain before after where "fields = before @ (key, v) # after"
        "key \<notin> fst ` set after" by blast
      with f False have "fields @ [f] = before @ (key, v) # (after @ [f])
          \<and> key \<notin> fst ` set (after @ [f])" by auto
      then show "\<exists>before after. fields @ [f] = before @ (key, v) # after \<and> key \<notin> fst ` set after"
        by blast
    qed
    with f False snoc.IH show ?thesis by simp
  qed
qed

lemma front_matter_block_sound:
  assumes "front_matter_block text = Some block"
  shows "\<exists>ws b' rest. text = ''---'' @ ws @ [CHR 0x0A] @ block @ ''---'' @ rest \<and>
           (\<forall>c \<in> set ws. is_space c) \<and> block = b' @ [CHR 0x0A]"
proof -
  from assms obtain t where t: "text = ''---'' @ t"
    and fs: "first_some until_close (ws_nl t) = Some block"
    by (auto simp: front_matter_block_def startswith_iff split: if_splits)
  from first_some_SomeD[OF fs] obtain r where r: "r \<in> set (ws_nl t)" "until_close r = Some block"
    by blast
  from r(1) obtain ws where ws: "t = ws @ CHR 0x0A # r" "\<forall>c \<in> set ws. is_space c"
    by (auto simp: ws_nl_iff)
  from until_close_sound[OF r(2)] obtain b' rest where
    "block = b' @ [CHR 0x0A]" "r = block @ ''---'' @ rest" by blast
  with t ws have "text = ''---'' @ ws @ [CHR 0x0A] @ block @ ''---'' @ rest \<and>
           (\<forall>c \<in> set ws. is_space c) \<and> block = b' @ [CHR 0x0A]" by simp
  then show ?thesis by blast
qed

lemma front_matter_block_complete:
  assumes "text = ''---'' @ ws @ [CHR 0x0A] @ (b' @ [CHR 0x0A]) @ ''---'' @ rest"
    and "\<forall>c \<in> set ws. is_space c"
  shows "front_matter_block text \<noteq> None"
proof
  assume none: "front_matter_block text = None"
  let ?r = "(b' @ [CHR 0x0A]) @ ''---'' @ rest"
  from assms have "?r \<in> set (ws_nl (ws @ CHR 0x0A # ?r))"
    unfolding ws_nl_iff by blast
  moreover from none assms(1) have "first_some until_close (ws_nl (ws @ CHR 0x0A # ?r)) = None"
    by (simp add: front_matter_block_def)
  ultimately have "until_close ?r = None" by (rule first_some_NoneD[rotated])
  with until_close_shortest[of ?r b' rest] show False by simp
qed

lemma startswith_dashes_short:
  "startswith (b' @ ''\<newline>--'') ''---'' \<Longrightarrow> startswith (b' @ ''\<newline>---'' @ rest) ''---''"
proof (cases b')
  case Nil
  assume "startswith (b' @ ''\<newline>--'') ''---''"
  with Nil show ?thesis by simp
next
  case (Cons x1 b1)
  assume a: "startswith (b' @ ''\<newline>--'') ''---''"
  show ?thesis
  proof (cases b1)
    case Nil
    with a Cons show ?thesis by simp
  next
    case (Cons x2 b2)
    note c2 = this
    show ?thesis
    proof (cases b2)
      case Nil
      with a c2 \<open>b' = x1 # b1\<close> show ?thesis by simp
    next
      case (Cons x3 b3)
      with a c2 \<open>b' = x1 # b1\<close> show ?thesis by simp
    qed
  qed
qed

lemma until_close_first:
  "until_close s = Some b \<Longrightarrow> \<not> str_in ''\<newline>---'' (b @ ''--'')"
proof (induction s arbitrary: b)
  case Nil
  then show ?case by simp
next
  case (Cons c s)
  show ?case
  proof (cases "c = CHR 0x0A \<and> startswith s ''---''")
    case True
    with Cons.prems have "b = [CHR 0x0A]" by simp
    then show ?thesis by simp
  next
    case False
    with Cons.prems obtain b0 where b0: "until_close s = Some b0" "b = c # b0" by auto
    from Cons.IH[OF b0(1)] have ih: "\<not> str_in ''\<newline>---'' (b0 @ ''--'')" .
    from until_close_sound[OF b0(1)] obtain b' rest where
      b': "b0 = b' @ [CHR 0x0A]" "s = b0 @ ''---'' @ rest" by blast
    have "\<not> (c = CHR 0x0A \<and> startswith (b0 @ ''--'') ''---'')"
    proof
      assume a: "c = CHR 0x0A \<and> startswith (b0 @ ''--'') ''---''"
      with b' have "startswith (b' @ ''\<newline>--'') ''---''" by simp
      then have "startswith (b' @ ''\<newline>---'' @ rest) ''---''" by (rule startswith_dashes_short)
      with b' have "startswith s ''---''" by simp
      with a False show False by simp
    qed
    with ih b0 show ?thesis by auto
  qed
qed

lemma front_matter_block_first:
  assumes "front_matter_block text = Some block"
  shows "\<not> str_in ''\<newline>---'' (block @ ''--'')"
proof -
  from assms have fs: "first_some until_close (ws_nl (drop 3 text)) = Some block"
    by (auto simp: front_matter_block_def split: if_splits)
  from first_some_SomeD[OF fs] obtain r where "until_close r = Some block" by blast
  then show ?thesis by (rule until_close_first)
qed

lemma map_of_parse_front_matter:
  assumes "front_matter_block text = Some block"
  shows "map_of (parse_front_matter text) key = Some v \<longleftrightarrow>
     (\<exists>before after. List.map_filter field_of_line (splitlines block) = before @ (key, v) # after \<and>
        key \<notin> fst ` set after)"
proof -
  have "map_of (parse_front_matter text) =
        map_of (rev (List.map_filter field_of_line (splitlines block)))"
    using assms by (simp add: parse_front_matter_def front_matter_lines_fields map_of_fold_update)
  then show ?thesis by (simp add: map_of_rev_last)
qed

lemma distinct_parse_front_matter: "distinct (map fst (parse_front_matter text))"
  by (auto simp: parse_front_matter_def front_matter_lines_fields distinct_fold_update
      split: option.splits)


text \<open>
  Claim C6, as amended. \<^const>\<open>parse_front_matter\<close> returns the empty mapping when the
  text has no front-matter block. A block is recognised exactly when the text starts
  with \<^verbatim>\<open>---\<close>, then has only white space up to a line feed, and later a line feed
  followed by \<^verbatim>\<open>---\<close>; what follows these closing dashes on their line is not looked
  at. The block ends at the first such line feed. Each line of the block that has a
  colon gives a field, lines without a colon give none, and the mapping holds, for each
  key, the value of the last field with that key.
\<close>

theorem parse_front_matter_fields:
  "(front_matter_block text = None \<longrightarrow> parse_front_matter text = [])
   \<and> (\<forall>ws b rest.
        text = ''---'' @ ws @ ''\<newline>'' @ b @ ''\<newline>---'' @ rest \<and> (\<forall>c \<in> set ws. is_space c)
        \<longrightarrow> front_matter_block text \<noteq> None)
   \<and> (\<forall>block. front_matter_block text = Some block \<longrightarrow>
        (\<exists>ws b rest.
           text = ''---'' @ ws @ ''\<newline>'' @ block @ ''---'' @ rest \<and> (\<forall>c \<in> set ws. is_space c) \<and>
           block = b @ ''\<newline>'') \<and>
        \<not> str_in ''\<newline>---'' (block @ ''--'') \<and>
        (\<forall>key v. map_of (parse_front_matter text) key = Some v \<longleftrightarrow>
           (\<exists>before after.
              List.map_filter field_of_line (splitlines block) = before @ (key, v) # after \<and>
              key \<notin> fst ` set after)))
   \<and> distinct (map fst (parse_front_matter text))"
proof (intro conjI allI impI)
  assume "front_matter_block text = None"
  then show "parse_front_matter text = []" by (simp add: parse_front_matter_def)
next
  fix ws b rest
  assume a: "text = ''---'' @ ws @ ''\<newline>'' @ b @ ''\<newline>---'' @ rest \<and> (\<forall>c \<in> set ws. is_space c)"
  then have "text = ''---'' @ ws @ [CHR 0x0A] @ (b @ [CHR 0x0A]) @ ''---'' @ rest" by simp
  with a show "front_matter_block text \<noteq> None"
    using front_matter_block_complete[of "text" ws b rest] by blast
next
  fix block
  assume b: "front_matter_block text = Some block"
  from front_matter_block_sound[OF b]
  show "\<exists>ws b rest.
           text = ''---'' @ ws @ ''\<newline>'' @ block @ ''---'' @ rest \<and> (\<forall>c \<in> set ws. is_space c) \<and>
           block = b @ ''\<newline>''"
    by simp
  from b show "\<not> str_in ''\<newline>---'' (block @ ''--'')" by (rule front_matter_block_first)
  fix key v
  from b show "map_of (parse_front_matter text) key = Some v \<longleftrightarrow>
           (\<exists>before after.
              List.map_filter field_of_line (splitlines block) = before @ (key, v) # after \<and>
              key \<notin> fst ` set after)"
    by (rule map_of_parse_front_matter)
next
  show "distinct (map fst (parse_front_matter text))" by (rule distinct_parse_front_matter)
qed


text \<open>
  The claim as stated speaks of a closing line that contains only \<^verbatim>\<open>---\<close>, and of the
  empty mapping when this pattern is absent.
\<close>

definition spec_front_matter_pattern :: "string \<Rightarrow> bool" where
  "spec_front_matter_pattern text =
     (case splitlines text of
        [] \<Rightarrow> False
      | first_line # more_lines \<Rightarrow> first_line = ''---'' \<and> ''---'' \<in> set more_lines)"


text \<open>
  A text whose only line that starts with \<^verbatim>\<open>---\<close> behind the first one is
  \<^verbatim>\<open>--- end\<close>: the pattern of the claim is absent, and the title is returned.
\<close>

theorem parse_front_matter_closing_line_counterexample:
  "\<not> spec_front_matter_pattern ''---\<newline>title: Get-AzFoo\<newline>--- end'' \<and>
   parse_front_matter ''---\<newline>title: Get-AzFoo\<newline>--- end'' = [(''title'', ''Get-AzFoo'')]"
  by (simp add: spec_front_matter_pattern_def parse_front_matter_def front_matter_block_def
      is_space_def splitlines_def is_linebreak_def split_colon_def strip_def strip_chars_def
      strip_where_def)


text \<open>
  A block with a quoted value, a line without a colon and a repeated key.
\<close>

theorem parse_front_matter_fields_witness:
  "front_matter_block
     ''---\<newline>title: \"Get-AzFoo\"\<newline>no colon here\<newline>title : Get-AzBar\<newline>---\<newline>body'' =
     Some ''title: \"Get-AzFoo\"\<newline>no colon here\<newline>title : Get-AzBar\<newline>'' \<and>
   List.map_filter field_of_line
     (splitlines ''title: \"Get-AzFoo\"\<newline>no colon here\<newline>title : Get-AzBar\<newline>'') =
     [(''title'', ''Get-AzFoo''), (''title'', ''Get-AzBar'')] \<and>
   map_of (parse_front_matter
     ''---\<newline>title: \"Get-AzFoo\"\<newline>no colon here\<newline>title : Get-AzBar\<newline>---\<newline>body'') ''title'' =
     Some ''Get-AzBar''"
proof -
  let ?text = "''---\<newline>title: \"Get-AzFoo\"\<newline>no colon here\<newline>title : Get-AzBar\<newline>---\<newline>body''"
  let ?block = "''title: \"Get-AzFoo\"\<newline>no colon here\<newline>title : Get-AzBar\<newline>''"
  have blk: "front_matter_block ?text = Some ?block"
    by (simp add: front_matter_block_def is_space_def)
  have fields: "List.map_filter field_of_line (splitlines ?block) =
      [(''title'', ''Get-AzFoo'')] @ (''title'', ''Get-AzBar'') # []"
    by (simp add: field_of_line_def splitlines_def is_linebreak_def
        strip_def strip_chars_def strip_where_def is_space_def)
  from parse_front_matter_fields[of ?text] blk
  have "\<forall>key v. map_of (parse_front_matter ?text) key = Some v \<longleftrightarrow>
           (\<exists>before after.
              List.map_filter field_of_line (splitlines ?block) = before @ (key, v) # after \<and>
              key \<notin> fst ` set after)"
    by blast
  then have "map_of (parse_front_matter ?text) ''title'' = Some ''Get-AzBar'' \<longleftrightarrow>
           (\<exists>before after.
              List.map_filter field_of_line (splitlines ?block) =
                before @ (''title'', ''Get-AzBar'') # after \<and>
              ''title'' \<notin> fst ` set after)"
    by blast
  moreover have "\<exists>before after.
      List.map_filter field_of_line (splitlines ?block) = before @ (''title'', ''Get-AzBar'') # after \<and>
      ''title'' \<notin> fst ` set after"
    using fields by (intro exI[of _ "[(''title'', ''Get-AzFoo'')]"] exI[of _ "[]"]) simp
  ultimately have "map_of (parse_front_matter ?text) ''title'' = Some ''Get-AzBar''" by blast
  with blk fields show ?thesis by simp
qed

section \<open>Properties of the code block extractor\<close>

lemma clean_blocks_filter:
  "clean_blocks bs cleaned = cleaned @ filter (\<lambda>code. code \<noteq> []) (map clean_block bs)"
  by (induction bs arbitrary: cleaned) (auto simp: Let_def)

lemma strip_Nil: "strip [] = []"
  by (simp add: strip_def strip_where_def)

lemma clean_block_comments:
  "\<forall>l \<in> set (splitlines (strip b)). startswith (strip l) ''#'' \<Longrightarrow> clean_block b = []"
proof -
  assume "\<forall>l \<in> set (splitlines (strip b)). startswith (strip l) ''#''"
  then have "filter (\<lambda>l. \<not> startswith (strip l) ''#'') (splitlines (strip b)) = []"
    by (simp add: filter_empty_conv)
  then show ?thesis by (simp add: clean_block_def strip_Nil)
qed

text \<open>
  Claim C5. For a section text and a maximum block count \<open>max_blocks\<close> (a count: not
  negative), \<^const>\<open>extract_code_blocks\<close> takes the first \<open>max_blocks\<close> fenced blocks that
  \<^const>\<open>findall_blocks\<close> finds, in their order; from each it drops the lines whose trimmed
  content starts with \<^verbatim>\<open>#\<close>, joins the other lines and trims the result; it returns the
  results that are not empty, in order, so at most \<open>max_blocks\<close> of them. When every line
  of every such block is a comment, the result is empty.
\<close>

theorem extract_code_blocks_cleaned:
  "0 \<le> max_blocks \<longrightarrow>
     extract_code_blocks section_text max_blocks =
       filter (\<lambda>code. code \<noteq> [])
         (map (\<lambda>b. strip (join ''\<newline>''
                  (filter (\<lambda>l. \<not> startswith (strip l) ''#'') (splitlines (strip b)))))
            (take (nat max_blocks) (findall_blocks section_text)))
     \<and> int (length (extract_code_blocks section_text max_blocks)) \<le> max_blocks
     \<and> ((\<forall>b \<in> set (take (nat max_blocks) (findall_blocks section_text)).
           \<forall>l \<in> set (splitlines (strip b)). startswith (strip l) ''#'')
         \<longrightarrow> extract_code_blocks section_text max_blocks = [])"
proof (intro impI)
  assume m: "0 \<le> max_blocks"
  let ?bs = "take (nat max_blocks) (findall_blocks section_text)"
  have eq: "extract_code_blocks section_text max_blocks =
      filter (\<lambda>code. code \<noteq> []) (map clean_block ?bs)"
    using m by (simp add: extract_code_blocks_def py_slice_to_def clean_blocks_filter)
  have cb: "clean_block = (\<lambda>b. strip (join ''\<newline>''
                  (filter (\<lambda>l. \<not> startswith (strip l) ''#'') (splitlines (strip b)))))"
    by (rule ext) (simp add: clean_block_def)
  have "length (filter (\<lambda>code. code \<noteq> []) (map clean_block ?bs)) \<le> length ?bs"
    using length_filter_le[of _ "map clean_block ?bs"] by simp
  also have "\<dots> \<le> nat max_blocks" by simp
  finally have len: "int (length (extract_code_blocks section_text max_blocks)) \<le> max_blocks"
    using m eq by simp
  have comments: "(\<forall>b \<in> set ?bs. \<forall>l \<in> set (splitlines (strip b)). startswith (strip l) ''#'')
      \<longrightarrow> extract_code_blocks section_text max_blocks = []"
  proof
    assume "\<forall>b \<in> set ?bs. \<forall>l \<in> set (splitlines (strip b)). startswith (strip l) ''#''"
    then have "\<forall>b \<in> set ?bs. clean_block b = []" by (simp add: clean_block_comments)
    then show "extract_code_blocks section_text max_blocks = []"
      unfolding eq by (simp add: filter_empty_conv)
  qed
  from eq len comments show "extract_code_blocks section_text max_blocks =
       filter (\<lambda>code. code \<noteq> [])
         (map (\<lambda>b. strip (join ''\<newline>''
                  (filter (\<lambda>l. \<not> startswith (strip l) ''#'') (splitlines (strip b)))))
            ?bs)
     \<and> int (length (extract_code_blocks section_text max_blocks)) \<le> max_blocks
     \<and> ((\<forall>b \<in> set ?bs. \<forall>l \<in> set (splitlines (strip b)). startswith (strip l) ''#'')
         \<longrightarrow> extract_code_blocks section_text max_blocks = [])"
    unfolding cb by blast
qed

text \<open>
  A section whose only fenced block holds two comment lines.
\<close>

lemma findall_blocks_example:
  "findall_blocks ''```powershell\<newline># list all\<newline>  # of them\<newline>```'' =
     [''# list all\<newline>  # of them\<newline>'']"
  by (simp add: match_block_here_def after_tag_def is_space_def to_lower_def)

lemma splitlines_example:
  "splitlines (strip ''# list all\<newline>  # of them\<newline>'') = [''# list all'', ''  # of them'']"
  by (simp add: splitlines_def is_linebreak_def strip_def strip_where_def is_space_def)

theorem extract_code_blocks_cleaned_witness:
  "(0::int) \<le> 3 \<and>
   findall_blocks ''```powershell\<newline># list all\<newline>  # of them\<newline>```'' =
     [''# list all\<newline>  # of them\<newline>''] \<and>
   extract_code_blocks ''```powershell\<newline># list all\<newline>  # of them\<newline>```'' 3 = []"
proof -
  let ?t = "''```powershell\<newline># list all\<newline>  # of them\<newline>```''"
  have comments: "\<forall>b \<in> set (take (nat 3) (findall_blocks ?t)).
           \<forall>l \<in> set (splitlines (strip b)). startswith (strip l) ''#''"
    unfolding findall_blocks_example
    by (simp add: splitlines_example) (simp add: strip_def strip_where_def is_space_def)
  have bound: "(0::int) \<le> 3" by simp
  from extract_code_blocks_cleaned[of 3 ?t] bound
  have "(\<forall>b \<in> set (take (nat 3) (findall_blocks ?t)).
           \<forall>l \<in> set (splitlines (strip b)). startswith (strip l) ''#'')
         \<longrightarrow> extract_code_blocks ?t 3 = []"
    by blast
  with comments have "extract_code_blocks ?t 3 = []"
    by blast
  with findall_blocks_example show ?thesis by simp
qed

section \<open>Properties of the section extractor\<close>

text \<open>
  Claim C7 says that \<^const>\<open>extract_section\<close> returns the text between the heading and the
  next second-level heading. When the section is empty, so that only blank lines stand
  between its heading and the next one, \<^verbatim>\<open>\s*\n\<close> consumes the line feed that the
  look-ahead \<^verbatim>\<open>\n## \<close> needs, and the result is the heading and the text of the
  following section instead of the empty string.
\<close>

theorem extract_section_empty_section:
  "extract_section ''## SYNOPSIS\<newline>\<newline>## SYNTAX\<newline>Get-AzFoo\<newline>'' ''SYNOPSIS'' =
     ''## SYNTAX\<newline>Get-AzFoo''"
  by (simp add: extract_section_def match_section_here_def is_space_def strip_def
      strip_where_def to_lower_def)

text \<open>
  The heading is not anchored at the start of a line either: a third-level heading with
  the same name is taken for the section.
\<close>

lemma extract_section_deeper_heading:
  "extract_section ''### SYNOPSIS\<newline>text\<newline>'' ''SYNOPSIS'' = ''text''"
  by (simp add: extract_section_def match_section_here_def is_space_def strip_def
      strip_where_def to_lower_def)

section \<open>Document classifier\<close>

text \<open>
  \<^verbatim>\<open>Path(filepath).stem\<close> of a file name: the name without its last suffix. A name has
  a suffix when its last dot is neither its first nor its last character.
\<close>

definition stem :: "string \<Rightarrow> string" where
  "stem file_name =
     (let suffix = rev (takeWhile (\<lambda>c. c \<noteq> CHR ''.'') (rev file_name));
          base = rev (tl (dropWhile (\<lambda>c. c \<noteq> CHR ''.'') (rev file_name)))
      in if CHR ''.'' \<in> set file_name \<and> base \<noteq> [] \<and> suffix \<noteq> [] then base else file_name)"

text \<open>
  \<^verbatim>\<open>re.match(r'^Az\.[A-Za-z]+$', fname)\<close>: \<^verbatim>\<open>$\<close> matches at the end of the string and
  before a line feed that ends the string.
\<close>

definition is_letter :: "char \<Rightarrow> bool" where
  "is_letter c = (is_upper c \<or> is_lower c)"

definition module_index_re :: "string \<Rightarrow> bool" where
  "module_index_re s =
     (startswith s ''Az.'' \<and>
      (let word = takeWhile is_letter (drop 3 s); rest = dropWhile is_letter (drop 3 s)
       in word \<noteq> [] \<and> (rest = [] \<or> rest = ''\<newline>'')))"

text \<open>
  \<^verbatim>\<open>re.match(r'^[A-Z][a-z]+-Az', name)\<close> and
  \<^verbatim>\<open>VERB_RE = re.compile(r'^([A-Z][a-z]+)-Az')\<close> with its group 1. The greedy
  \<^verbatim>\<open>[a-z]+\<close> cannot give characters back to \<^verbatim>\<open>-\<close>, so the run of lower-case
  letters is the longest one.
\<close>

definition cmdlet_name_re :: "string \<Rightarrow> bool" where
  "cmdlet_name_re s =
     (case s of
        [] \<Rightarrow> False
      | c # r \<Rightarrow> is_upper c \<and> takeWhile is_lower r \<noteq> [] \<and>
                 startswith (dropWhile is_lower r) ''-Az'')"

definition VERB_RE :: "string \<Rightarrow> string option" where
  "VERB_RE s =
     (case s of
        [] \<Rightarrow> None
      | c # r \<Rightarrow>
          if is_upper c \<and> takeWhile is_lower r \<noteq> [] \<and> startswith (dropWhile is_lower r) ''-Az''
          then Some (c # takeWhile is_lower r)
          else None)"

text \<open>
  \<^verbatim>\<open>re.sub(r'\[([^\]]+)\]\([^)]+\)', r'\1', description)\<close>: \<open>match_link\<close> matches a
  Markdown link at the start of \<open>s\<close> and returns its label and the text behind it;
  \<open>sub_links\<close> replaces every link, from left to right, by its label.
\<close>

definition match_link :: "string \<Rightarrow> (string \<times> string) option" where
  "match_link s =
     (case s of
        [] \<Rightarrow> None
      | c # r \<Rightarrow>
          (let label = takeWhile (\<lambda>x. x \<noteq> CHR '']'') r;
               r1 = dropWhile (\<lambda>x. x \<noteq> CHR '']'') r;
               url = takeWhile (\<lambda>x. x \<noteq> CHR '')'') (drop 2 r1);
               r2 = dropWhile (\<lambda>x. x \<noteq> CHR '')'') (drop 2 r1)
           in if c = CHR ''['' \<and> label \<noteq> [] \<and> startswith r1 ''](''  \<and> url \<noteq> [] \<and> r2 \<noteq> []
              then Some (label, tl r2)
              else None))"

lemma match_link_length: "match_link s = Some (label, r) \<Longrightarrow> length r < length s"
proof -
  assume a: "match_link s = Some (label, r)"
  then obtain c s' where s: "s = c # s'" by (cases s) (auto simp: match_link_def)
  let ?r1 = "dropWhile (\<lambda>x. x \<noteq> CHR '']'') s'"
  let ?r2 = "dropWhile (\<lambda>x. x \<noteq> CHR '')'') (drop 2 ?r1)"
  from a s have r: "r = tl ?r2" "?r2 \<noteq> []"
    by (auto simp: match_link_def Let_def split: if_splits)
  have "length ?r2 \<le> length (drop 2 ?r1)" by (rule length_dropWhile_le)
  also have "\<dots> \<le> length ?r1" by simp
  also have "\<dots> \<le> length s'" by (rule length_dropWhile_le)
  finally show ?thesis using r s by simp
qed

function sub_links :: "string \<Rightarrow> string" where
  "sub_links [] = []"
| "sub_links (c # s) =
     (case match_link (c # s) of
        Some (label, r) \<Rightarrow> label @ sub_links r
      | None \<Rightarrow> c # sub_links s)"
  by pat_completeness auto
termination
  by (relation "measure length") (auto dest: match_link_length)

text \<open>
  \<^verbatim>\<open>re.sub(r'[*_`]', '', description)\<close>
\<close>

definition sub_markers :: "string \<Rightarrow> string" where
  "sub_markers s = filter (\<lambda>c. c \<notin> set ''*_`'') s"

text \<open>
  The dictionary that \<^verbatim>\<open>parse_cmdlet_doc\<close> returns.
\<close>

record command_doc =
  doc_name :: string
  doc_module :: string
  doc_description :: string
  doc_syntax :: string
  doc_examples :: "string list"

text \<open>
  \<^verbatim>\<open>Path(filepath).read_text(...)\<close>: reading a directory raises.
\<close>

fun read_text :: "fsnode \<Rightarrow> error + string" where
  "read_text (File name content) = Inr content"
| "read_text (Dir name entries) = Inl IsADirectoryError"

text \<open>
  \<^verbatim>\<open>s.splitlines()[0]\<close>
\<close>

definition first_line :: "string \<Rightarrow> error + string" where
  "first_line s = (case splitlines s of [] \<Rightarrow> Inl IndexError | l # ls \<Rightarrow> Inr l)"

text \<open>
  \<^verbatim>\<open>name = front.get('title') or fname\<close>: an empty title counts as no title.
\<close>

definition select_name :: "(string \<times> string) list \<Rightarrow> string \<Rightarrow> string" where
  "select_name front fname =
     (case map_of front ''title'' of
        None \<Rightarrow> fname
      | Some title \<Rightarrow> if title \<noteq> [] then title else fname)"

text \<open>
  \<^verbatim>\<open>module = front.get('Module Name', '')\<close>, replaced by the name of the parent
  directory when it is empty and that name starts with \<^verbatim>\<open>Az.\<close>
\<close>

definition select_module :: "(string \<times> string) list \<Rightarrow> string \<Rightarrow> string" where
  "select_module front parent =
     (let module = (case map_of front ''Module Name'' of None \<Rightarrow> [] | Some m \<Rightarrow> m)
      in if module = [] \<and> startswith parent ''Az.'' then parent else module)"

text \<open>
  The description: the first line of the section \<^verbatim>\<open>SYNOPSIS\<close>, trimmed, without
  link targets and emphasis markers; empty when the section is.
\<close>

definition description_of :: "string \<Rightarrow> error + string" where
  "description_of text =
     (let synopsis_sec = extract_section text ''SYNOPSIS'' in
      case (if synopsis_sec \<noteq> [] then map_sum id strip (first_line synopsis_sec) else Inr []) of
        Inl err \<Rightarrow> Inl err
      | Inr description \<Rightarrow> Inr (strip (sub_markers (sub_links description))))"

text \<open>
  The syntax: the first code block of the section \<^verbatim>\<open>SYNTAX\<close>, if there is one.
  The examples: up to three code blocks of the section \<^verbatim>\<open>EXAMPLES\<close>.
\<close>

definition syntax_of :: "string \<Rightarrow> string" where
  "syntax_of text =
     (let syntax_sec = extract_section text ''SYNTAX'';
          syntax_blocks = extract_code_blocks syntax_sec 1
      in case syntax_blocks of [] \<Rightarrow> [] | b # bs \<Rightarrow> b)"

definition examples_of :: "string \<Rightarrow> string list" where
  "examples_of text =
     (let examples_sec = extract_section text ''EXAMPLES'' in extract_code_blocks examples_sec 3)"

text \<open>
  \<open>parse_cmdlet_doc parent md_file\<close>: \<open>parent\<close> is the name of the directory of the file
  (\<^verbatim>\<open>Path(filepath).parent.name\<close>). The result \<open>None\<close> is Python's \<^verbatim>\<open>None\<close>.
\<close>

definition parse_cmdlet_doc :: "string \<Rightarrow> fsnode \<Rightarrow> error + command_doc option" where
  "parse_cmdlet_doc parent md_file =
     (case read_text md_file of
        Inl err \<Rightarrow> Inl err
      | Inr text \<Rightarrow>
          (let front = parse_front_matter text;
               fname = stem (node_name md_file);
               name = select_name front fname;
               module = select_module front parent
           in if module_index_re fname then Inr None
              else if \<not> cmdlet_name_re name then Inr None
              else if module = [] \<or> \<not> startswith module ''Az.'' then Inr None
              else
                (case description_of text of
                   Inl err \<Rightarrow> Inl err
                 | Inr description \<Rightarrow>
                     Inr (Some \<lparr>doc_name = name, doc_module = module,
                                 doc_description = description,
                                 doc_syntax = syntax_of text,
                                 doc_examples = examples_of text\<rparr>))))"

section \<open>Properties of the document classifier\<close>

text \<open>
  The words of the specification. A module index page is named \<^verbatim>\<open>Az.\<close> and a word
  of letters. A command name is a verb, which is a capital letter and at least one
  lower-case letter, then \<^verbatim>\<open>-Az\<close>, then anything. The module is the field
  \<^verbatim>\<open>Module Name\<close> when it is present and not empty, otherwise the name of the parent
  directory when that starts with \<^verbatim>\<open>Az.\<close>
\<close>

definition is_module_index :: "string \<Rightarrow> bool" where
  "is_module_index fname =
     (\<exists>word. (fname = ''Az.'' @ word \<or> fname = ''Az.'' @ word @ ''\<newline>'') \<and> word \<noteq> [] \<and>
        (\<forall>c \<in> set word. is_letter c))"

definition is_cmdlet_name :: "string \<Rightarrow> string \<Rightarrow> bool" where
  "is_cmdlet_name verb name =
     (\<exists>c lows rest. verb = c # lows \<and> name = verb @ ''-Az'' @ rest \<and> is_upper c \<and> lows \<noteq> [] \<and>
        (\<forall>x \<in> set lows. is_lower x))"

definition resolved_module :: "(string \<times> string) list \<Rightarrow> string \<Rightarrow> string option" where
  "resolved_module front parent =
     (let from_parent = (if \<exists>rest. parent = ''Az.'' @ rest then Some parent else None)
      in case map_of front ''Module Name'' of
           None \<Rightarrow> from_parent
         | Some m \<Rightarrow> if m \<noteq> [] then Some m else from_parent)"

text \<open>
  The resolved name as the claim states it: the title whenever the field is present.
\<close>

definition spec_resolved_name :: "(string \<times> string) list \<Rightarrow> string \<Rightarrow> string" where
  "spec_resolved_name front fname =
     (case map_of front ''title'' of None \<Rightarrow> fname | Some title \<Rightarrow> title)"

lemma takeWhile_dropWhile_split:
  "takeWhile P s = a \<and> dropWhile P s = b \<longleftrightarrow>
     s = a @ b \<and> (\<forall>x \<in> set a. P x) \<and> (b = [] \<or> \<not> P (hd b))"
proof
  assume "takeWhile P s = a \<and> dropWhile P s = b"
  then have a: "a = takeWhile P s" and b: "b = dropWhile P s" by simp_all
  have "s = a @ b" unfolding a b by simp
  moreover have "\<forall>x \<in> set a. P x" unfolding a by (auto dest: set_takeWhileD)
  moreover have "b = [] \<or> \<not> P (hd b)" unfolding b using hd_dropWhile[of P s] by blast
  ultimately show "s = a @ b \<and> (\<forall>x \<in> set a. P x) \<and> (b = [] \<or> \<not> P (hd b))" by blast
next
  assume r: "s = a @ b \<and> (\<forall>x \<in> set a. P x) \<and> (b = [] \<or> \<not> P (hd b))"
  then have tb: "takeWhile P b = []" by (cases b) auto
  from r have db: "dropWhile P b = b" by (cases b) auto
  from r tb db show "takeWhile P s = a \<and> dropWhile P s = b"
    by (simp add: takeWhile_append2 dropWhile_append2)
qed

lemma not_lower_dash: "\<not> is_lower CHR ''-''"
  by (simp add: is_lower_def)

lemma not_letter_newline: "\<not> is_letter CHR 0x0A"
  by (simp add: is_letter_def is_lower_def is_upper_def)

lemma VERB_RE_iff: "VERB_RE name = Some verb \<longleftrightarrow> is_cmdlet_name verb name"
proof
  assume a: "VERB_RE name = Some verb"
  then obtain c r where name: "name = c # r" by (cases name) (auto simp: VERB_RE_def)
  let ?lows = "takeWhile is_lower r"
  from a name have c: "is_upper c" and l: "?lows \<noteq> []"
    and d: "startswith (dropWhile is_lower r) ''-Az''" and v: "verb = c # ?lows"
    by (auto simp: VERB_RE_def split: if_splits)
  from d obtain rest where rest: "dropWhile is_lower r = ''-Az'' @ rest"
    by (auto simp: startswith_iff)
  have "r = ?lows @ dropWhile is_lower r" by simp
  with rest name v have "name = verb @ ''-Az'' @ rest" by simp
  moreover have "\<forall>x \<in> set ?lows. is_lower x" by (auto dest: set_takeWhileD)
  ultimately show "is_cmdlet_name verb name"
    unfolding is_cmdlet_name_def using v c l by blast
next
  assume "is_cmdlet_name verb name"
  then obtain c lows rest where v: "verb = c # lows" and n: "name = verb @ ''-Az'' @ rest"
    and c: "is_upper c" and l: "lows \<noteq> []" and ls: "\<forall>x \<in> set lows. is_lower x"
    unfolding is_cmdlet_name_def by blast
  let ?d = "CHR ''-'' # CHR ''A'' # CHR ''z'' # rest"
  have "takeWhile is_lower (lows @ ?d) = lows \<and> dropWhile is_lower (lows @ ?d) = ?d"
    unfolding takeWhile_dropWhile_split using ls not_lower_dash by simp
  then have tw: "takeWhile is_lower (lows @ ?d) = lows"
    and dw: "dropWhile is_lower (lows @ ?d) = ?d" by blast+
  from v n c l show "VERB_RE name = Some verb"
    by (simp add: VERB_RE_def startswith_iff tw dw)
qed

lemma cmdlet_name_re_VERB_RE: "cmdlet_name_re name \<longleftrightarrow> VERB_RE name \<noteq> None"
  by (cases name) (simp_all add: cmdlet_name_re_def VERB_RE_def)

lemma cmdlet_name_re_iff: "cmdlet_name_re name \<longleftrightarrow> (\<exists>verb. is_cmdlet_name verb name)"
  by (auto simp: cmdlet_name_re_VERB_RE VERB_RE_iff[symmetric])

lemma module_index_re_iff: "module_index_re fname \<longleftrightarrow> is_module_index fname"
proof
  assume a: "module_index_re fname"
  then obtain t where t: "fname = ''Az.'' @ t" by (auto simp: module_index_re_def startswith_iff)
  let ?w = "takeWhile is_letter t" and ?e = "dropWhile is_letter t"
  from a t have w: "?w \<noteq> []" and e: "?e = [] \<or> ?e = ''\<newline>''"
    by (auto simp: module_index_re_def Let_def)
  have "t = ?w @ ?e" by simp
  from e have "fname = ''Az.'' @ ?w \<or> fname = ''Az.'' @ ?w @ ''\<newline>''"
  proof
    assume "?e = []"
    with \<open>t = ?w @ ?e\<close> have "t = ?w" by simp
    with t show ?thesis by simp
  next
    assume "?e = ''\<newline>''"
    with \<open>t = ?w @ ?e\<close> have "t = ?w @ ''\<newline>''" by simp
    with t show ?thesis by simp
  qed
  moreover have "\<forall>c \<in> set ?w. is_letter c" by (auto dest: set_takeWhileD)
  ultimately show "is_module_index fname" unfolding is_module_index_def using w by blast
next
  assume "is_module_index fname"
  then obtain word where f: "fname = ''Az.'' @ word \<or> fname = ''Az.'' @ word @ ''\<newline>''"
    and w: "word \<noteq> []" and l: "\<forall>c \<in> set word. is_letter c"
    unfolding is_module_index_def by blast
  from f show "module_index_re fname"
  proof
    assume f1: "fname = ''Az.'' @ word"
    have tw: "takeWhile is_letter word = word" and dw: "dropWhile is_letter word = []"
      using l by simp_all
    from f1 w show ?thesis by (simp add: module_index_re_def startswith_iff tw dw)
  next
    assume f2: "fname = ''Az.'' @ word @ ''\<newline>''"
    have "takeWhile is_letter (word @ [CHR 0x0A]) = word \<and>
          dropWhile is_letter (word @ [CHR 0x0A]) = [CHR 0x0A]"
      unfolding takeWhile_dropWhile_split using l not_letter_newline by simp
    then have tw: "takeWhile is_letter (word @ [CHR 0x0A]) = word"
      and dw: "dropWhile is_letter (word @ [CHR 0x0A]) = [CHR 0x0A]" by blast+
    from f2 w show ?thesis by (simp add: module_index_re_def startswith_iff tw dw)
  qed
qed

lemma splitlines_acc_nonempty: "cur \<noteq> [] \<or> s \<noteq> [] \<Longrightarrow> splitlines_acc cur s \<noteq> []"
  by (induction cur s rule: splitlines_acc.induct) auto

lemma first_line_nonempty: "s \<noteq> [] \<Longrightarrow> \<exists>l. first_line s = Inr l"
  using splitlines_acc_nonempty[of "[]" s]
  by (auto simp: first_line_def splitlines_def split: list.splits)

lemma resolved_module_startswith:
  "resolved_module front parent =
     (case map_of front ''Module Name'' of
        None \<Rightarrow> if startswith parent ''Az.'' then Some parent else None
      | Some m \<Rightarrow> if m \<noteq> [] then Some m
                  else if startswith parent ''Az.'' then Some parent else None)"
  unfolding resolved_module_def startswith_iff Let_def by (rule refl)

lemma resolved_module_None:
  assumes "resolved_module front parent = None"
  shows "select_module front parent = [] \<or> \<not> startswith (select_module front parent) ''Az.''"
proof (cases "map_of front ''Module Name''")
  case None
  with assms have "\<not> startswith parent ''Az.''"
    by (simp add: resolved_module_startswith split: if_splits)
  with None show ?thesis by (simp add: select_module_def)
next
  case (Some m)
  with assms have "m = []" "\<not> startswith parent ''Az.''"
    by (simp_all add: resolved_module_startswith split: if_splits)
  with Some show ?thesis by (simp add: select_module_def)
qed

lemma resolved_module_Some:
  assumes "resolved_module front parent = Some m"
  shows "select_module front parent = m"
proof (cases "map_of front ''Module Name''")
  case None
  with assms have "startswith parent ''Az.''" "m = parent"
    by (simp_all add: resolved_module_startswith split: if_splits)
  with None show ?thesis by (simp add: select_module_def)
next
  case (Some m')
  show ?thesis
  proof (cases "m' = []")
    case True
    with Some assms have "startswith parent ''Az.''" "m = parent"
      by (simp_all add: resolved_module_startswith split: if_splits)
    with Some True show ?thesis by (simp add: select_module_def)
  next
    case False
    with Some assms have "m = m'" by (simp add: resolved_module_startswith)
    with Some False show ?thesis by (simp add: select_module_def)
  qed
qed

lemma description_of_total: "\<exists>d. description_of text = Inr d"
proof (cases "extract_section text ''SYNOPSIS'' = []")
  case True
  then show ?thesis by (simp add: description_of_def)
next
  case False
  with first_line_nonempty obtain l where "first_line (extract_section text ''SYNOPSIS'') = Inr l"
    by blast
  with False show ?thesis by (simp add: description_of_def)
qed

lemma parse_cmdlet_doc_reject:
  assumes "module_index_re (stem file_name)
    \<or> \<not> cmdlet_name_re (select_name (parse_front_matter content) (stem file_name))
    \<or> select_module (parse_front_matter content) parent = []
    \<or> \<not> startswith (select_module (parse_front_matter content) parent) ''Az.''"
  shows "parse_cmdlet_doc parent (File file_name content) = Inr None"
  using assms by (auto simp: parse_cmdlet_doc_def Let_def)

lemma parse_cmdlet_doc_accept:
  assumes "\<not> module_index_re (stem file_name)"
    and "cmdlet_name_re (select_name (parse_front_matter content) (stem file_name))"
    and "startswith (select_module (parse_front_matter content) parent) ''Az.''"
  shows "\<exists>doc. parse_cmdlet_doc parent (File file_name content) = Inr (Some doc) \<and>
    doc_name doc = select_name (parse_front_matter content) (stem file_name) \<and>
    doc_module doc = select_module (parse_front_matter content) parent"
proof -
  from assms(3) have "select_module (parse_front_matter content) parent \<noteq> []" by auto
  moreover obtain d where "description_of content = Inr d" using description_of_total by blast
  ultimately show ?thesis using assms by (simp add: parse_cmdlet_doc_def Let_def)
qed

text \<open>
  Claim C2, as amended. For a file, \<^const>\<open>parse_cmdlet_doc\<close> returns \<open>None\<close> exactly
  when the base name of the file is a module index name, or the resolved name (the
  title when it is present and not empty, otherwise the base name) is not a command
  name, or no module name that starts with \<^verbatim>\<open>Az.\<close> is resolved. Otherwise it returns a
  document with the resolved name and module, and \<^const>\<open>VERB_RE\<close>, which the aggregator
  applies to the name, yields the verb of the name.
\<close>

theorem parse_cmdlet_doc_classifies:
  "(parse_cmdlet_doc parent (File file_name content) = Inr None \<longleftrightarrow>
      is_module_index (stem file_name) \<or>
      \<not> (\<exists>verb. is_cmdlet_name verb (select_name (parse_front_matter content) (stem file_name))) \<or>
      \<not> (\<exists>rest. resolved_module (parse_front_matter content) parent = Some (''Az.'' @ rest)))
   \<and> (\<forall>verb rest.
        \<not> is_module_index (stem file_name) \<and>
        is_cmdlet_name verb (select_name (parse_front_matter content) (stem file_name)) \<and>
        resolved_module (parse_front_matter content) parent = Some (''Az.'' @ rest)
        \<longrightarrow> (\<exists>doc. parse_cmdlet_doc parent (File file_name content) = Inr (Some doc) \<and>
               doc_name doc = select_name (parse_front_matter content) (stem file_name) \<and>
               doc_module doc = ''Az.'' @ rest \<and>
               VERB_RE (doc_name doc) = Some verb))"
proof -
  let ?front = "parse_front_matter content"
  let ?name = "select_name ?front (stem file_name)"
  let ?res = "parse_cmdlet_doc parent (File file_name content)"
  have accept: "\<exists>doc. ?res = Inr (Some doc) \<and> doc_name doc = ?name \<and> doc_module doc = ''Az.'' @ rest \<and>
      VERB_RE (doc_name doc) = Some verb"
    if a: "\<not> is_module_index (stem file_name)" "is_cmdlet_name verb ?name"
      "resolved_module ?front parent = Some (''Az.'' @ rest)" for verb rest
  proof -
    from a(3) have m: "select_module ?front parent = ''Az.'' @ rest" by (rule resolved_module_Some)
    then have "startswith (select_module ?front parent) ''Az.''" by (simp add: startswith_iff)
    moreover from a(2) have "cmdlet_name_re ?name" unfolding cmdlet_name_re_iff by blast
    moreover from a(1) have "\<not> module_index_re (stem file_name)" by (simp add: module_index_re_iff)
    ultimately obtain doc where "?res = Inr (Some doc)" "doc_name doc = ?name"
      "doc_module doc = select_module ?front parent"
      using parse_cmdlet_doc_accept by blast
    moreover from a(2) have "VERB_RE ?name = Some verb" by (simp add: VERB_RE_iff)
    ultimately show ?thesis using m by simp
  qed
  have reject: "?res = Inr None"
    if r: "is_module_index (stem file_name) \<or> \<not> (\<exists>verb. is_cmdlet_name verb ?name) \<or>
      \<not> (\<exists>rest. resolved_module ?front parent = Some (''Az.'' @ rest))"
  proof -
    from r consider "module_index_re (stem file_name)" | "\<not> cmdlet_name_re ?name"
      | "\<not> (\<exists>rest. resolved_module ?front parent = Some (''Az.'' @ rest))"
      by (auto simp: module_index_re_iff cmdlet_name_re_iff)
    then show ?thesis
    proof cases
      case 1
      then show ?thesis by (intro parse_cmdlet_doc_reject) simp
    next
      case 2
      then show ?thesis by (intro parse_cmdlet_doc_reject) simp
    next
      case 3
      show ?thesis
      proof (cases "resolved_module ?front parent")
        case None
        from resolved_module_None[OF None] show ?thesis by (intro parse_cmdlet_doc_reject) blast
      next
        case (Some m)
        with 3 have "\<not> startswith m ''Az.''" by (auto simp: startswith_iff)
        with resolved_module_Some[OF Some] show ?thesis
          by (intro parse_cmdlet_doc_reject) simp
      qed
    qed
  qed
  have "?res = Inr None \<longleftrightarrow>
      is_module_index (stem file_name) \<or> \<not> (\<exists>verb. is_cmdlet_name verb ?name) \<or>
      \<not> (\<exists>rest. resolved_module ?front parent = Some (''Az.'' @ rest))"
  proof
    assume none: "?res = Inr None"
    show "is_module_index (stem file_name) \<or> \<not> (\<exists>verb. is_cmdlet_name verb ?name) \<or>
      \<not> (\<exists>rest. resolved_module ?front parent = Some (''Az.'' @ rest))"
    proof (rule ccontr)
      assume "\<not> (is_module_index (stem file_name) \<or> \<not> (\<exists>verb. is_cmdlet_name verb ?name) \<or>
        \<not> (\<exists>rest. resolved_module ?front parent = Some (''Az.'' @ rest)))"
      then obtain verb rest where "\<not> is_module_index (stem file_name)"
        "is_cmdlet_name verb ?name" "resolved_module ?front parent = Some (''Az.'' @ rest)"
        by blast
      from accept[OF this] none show False by simp
    qed
  next
    assume "is_module_index (stem file_name) \<or> \<not> (\<exists>verb. is_cmdlet_name verb ?name) \<or>
      \<not> (\<exists>rest. resolved_module ?front parent = Some (''Az.'' @ rest))"
    then show "?res = Inr None" by (rule reject)
  qed
  with accept show ?thesis by blast
qed

lemma stem_examples:
  "stem ''Get-AzFoo.md'' = ''Get-AzFoo'' \<and> stem ''Az.Foo.md'' = ''Az.Foo''"
  by (simp add: stem_def)

lemma empty_title_front:
  "parse_front_matter ''---\<newline>title:\<newline>---\<newline>'' = [(''title'', [])]"
  by (simp add: parse_front_matter_def front_matter_block_def is_space_def splitlines_def
      is_linebreak_def split_colon_def strip_def strip_chars_def strip_where_def)

text \<open>
  The claim as stated takes the title whenever the field is present. A document
  \<^verbatim>\<open>Get-AzFoo.md\<close> in \<^verbatim>\<open>Az.Foo\<close> whose front matter has the line \<^verbatim>\<open>title:\<close> has an
  empty title, which is no command name; the script falls back to the file name and
  accepts the document.
\<close>

theorem parse_cmdlet_doc_empty_title_counterexample:
  "map_of (parse_front_matter ''---\<newline>title:\<newline>---\<newline>'') ''title'' = Some [] \<and>
   \<not> cmdlet_name_re
       (spec_resolved_name (parse_front_matter ''---\<newline>title:\<newline>---\<newline>'')
          (stem ''Get-AzFoo.md'')) \<and>
   parse_cmdlet_doc ''Az.Foo'' (File ''Get-AzFoo.md'' ''---\<newline>title:\<newline>---\<newline>'') =
     Inr (Some \<lparr>doc_name = ''Get-AzFoo'', doc_module = ''Az.Foo'', doc_description = [],
                 doc_syntax = [], doc_examples = []\<rparr>)"
proof -
  have "extract_section ''---\<newline>title:\<newline>---\<newline>'' ''SYNOPSIS'' = []"
    and "extract_section ''---\<newline>title:\<newline>---\<newline>'' ''SYNTAX'' = []"
    and "extract_section ''---\<newline>title:\<newline>---\<newline>'' ''EXAMPLES'' = []"
    by (simp_all add: extract_section_def match_section_here_def to_lower_def)
  moreover have "extract_code_blocks [] 1 = []" "extract_code_blocks [] 3 = []"
    by (simp_all add: extract_code_blocks_def py_slice_to_def)
  moreover have "sub_links [] = []" by simp
  ultimately show ?thesis
    by (simp add: empty_title_front stem_examples spec_resolved_name_def cmdlet_name_re_def
        parse_cmdlet_doc_def select_name_def select_module_def module_index_re_def
        is_letter_def is_upper_def is_lower_def description_of_def syntax_of_def examples_of_def
        sub_markers_def strip_Nil)
qed

lemma example_front:
  "parse_front_matter ''---\<newline>title: Get-AzFoo\<newline>Module Name: Az.Foo\<newline>---\<newline>## SYNOPSIS\<newline>Gets a foo.\<newline>'' =
     [(''title'', ''Get-AzFoo''), (''Module Name'', ''Az.Foo'')]"
  by (simp add: parse_front_matter_def front_matter_block_def is_space_def splitlines_def
      is_linebreak_def split_colon_def strip_def strip_chars_def strip_where_def)

text \<open>
  A command document, and the same text in a file named as a module index page.
\<close>

theorem parse_cmdlet_doc_classifies_witness:
  "is_cmdlet_name ''Get'' ''Get-AzFoo'' \<and>
   (\<exists>doc. parse_cmdlet_doc ''Az.Foo''
            (File ''Get-AzFoo.md''
               ''---\<newline>title: Get-AzFoo\<newline>Module Name: Az.Foo\<newline>---\<newline>## SYNOPSIS\<newline>Gets a foo.\<newline>'') =
            Inr (Some doc) \<and>
          doc_name doc = ''Get-AzFoo'' \<and> doc_module doc = ''Az.Foo'' \<and>
          VERB_RE (doc_name doc) = Some ''Get'') \<and>
   is_module_index ''Az.Foo'' \<and>
   parse_cmdlet_doc ''Az.Foo''
     (File ''Az.Foo.md''
        ''---\<newline>title: Get-AzFoo\<newline>Module Name: Az.Foo\<newline>---\<newline>## SYNOPSIS\<newline>Gets a foo.\<newline>'') =
     Inr None"
proof -
  let ?c = "''---\<newline>title: Get-AzFoo\<newline>Module Name: Az.Foo\<newline>---\<newline>## SYNOPSIS\<newline>Gets a foo.\<newline>''"
  have name: "select_name (parse_front_matter ?c) ''Get-AzFoo'' = ''Get-AzFoo''"
    and name2: "select_name (parse_front_matter ?c) ''Az.Foo'' = ''Get-AzFoo''"
    by (simp_all add: example_front select_name_def)
  have verb: "is_cmdlet_name ''Get'' ''Get-AzFoo''"
    unfolding VERB_RE_iff[symmetric] by (simp add: VERB_RE_def is_upper_def is_lower_def)
  have module: "resolved_module (parse_front_matter ?c) ''Az.Foo'' = Some (''Az.'' @ ''Foo'')"
    by (simp add: example_front resolved_module_startswith)
  have idx: "\<not> is_module_index ''Get-AzFoo''"
    unfolding module_index_re_iff[symmetric] by (simp add: module_index_re_def)
  have idx2: "is_module_index ''Az.Foo''"
    unfolding module_index_re_iff[symmetric]
    by (simp add: module_index_re_def is_letter_def is_upper_def is_lower_def)
  from parse_cmdlet_doc_classifies[of "''Az.Foo''" "''Get-AzFoo.md''" ?c]
  have "\<not> is_module_index ''Get-AzFoo'' \<and> is_cmdlet_name ''Get'' ''Get-AzFoo'' \<and>
        resolved_module (parse_front_matter ?c) ''Az.Foo'' = Some (''Az.'' @ ''Foo'')
        \<longrightarrow> (\<exists>doc. parse_cmdlet_doc ''Az.Foo'' (File ''Get-AzFoo.md'' ?c) = Inr (Some doc) \<and>
               doc_name doc = ''Get-AzFoo'' \<and> doc_module doc = ''Az.'' @ ''Foo'' \<and>
               VERB_RE (doc_name doc) = Some ''Get'')"
    unfolding stem_examples[THEN conjunct1] name by blast
  with idx verb module
  have accepted: "\<exists>doc. parse_cmdlet_doc ''Az.Foo'' (File ''Get-AzFoo.md'' ?c) = Inr (Some doc) \<and>
               doc_name doc = ''Get-AzFoo'' \<and> doc_module doc = ''Az.'' @ ''Foo'' \<and>
               VERB_RE (doc_name doc) = Some ''Get''"
    by blast
  from parse_cmdlet_doc_classifies[of "''Az.Foo''" "''Az.Foo.md''" ?c] idx2
  have "parse_cmdlet_doc ''Az.Foo'' (File ''Az.Foo.md'' ?c) = Inr None"
    unfolding stem_examples[THEN conjunct2] by blast
  with verb accepted idx2 show ?thesis by simp
qed

section \<open>Aggregator and writer\<close>

text \<open>
  The entries of the manifest, the value of a command in a module file, and the object
  written for a module.
\<close>

record manifest_entry =
  entry_n :: string
  entry_v :: string
  entry_m :: string
  entry_c :: string
  entry_e :: bool

record cmdlet_info =
  info_syntax :: string
  info_examples :: "string list"

record module_data =
  data_module :: string
  data_version :: string
  data_cmdlets :: "(string \<times> cmdlet_info) list"

text \<open>
  \<^verbatim>\<open>d.iterdir()\<close> of a directory, \<^verbatim>\<open>d.glob('*.md')\<close> and \<^verbatim>\<open>d.rglob('*.md')\<close>. A
  pattern \<^verbatim>\<open>*.md\<close> matches every name that ends in \<^verbatim>\<open>.md\<close>, of a file or of a
  directory. \<^verbatim>\<open>rglob\<close> lists the matches of a directory before those of its
  subdirectories (the order of CPython 3.11; only the choice among several versions
  declared for one module depends on it).
\<close>

fun iterdir :: "fsnode \<Rightarrow> fsnode list" where
  "iterdir (File name content) = []"
| "iterdir (Dir name entries) = entries"

definition glob_md :: "fsnode \<Rightarrow> fsnode list" where
  "glob_md d = filter (\<lambda>f. endswith (node_name f) ''.md'') (iterdir d)"

fun rglob_md :: "fsnode \<Rightarrow> fsnode list" where
  "rglob_md (File name content) = []"
| "rglob_md (Dir name entries) =
     filter (\<lambda>f. endswith (node_name f) ''.md'') entries
     @ concat (map rglob_md (filter is_dir entries))"

text \<open>
  \<^verbatim>\<open>sorted(paths)\<close> for paths of one directory: by name, in the order of the code
  points.
\<close>

definition sorted_paths :: "fsnode list \<Rightarrow> fsnode list" where
  "sorted_paths nodes = sort_key node_name nodes"

text \<open>
  \<^verbatim>\<open>re.search(r'azps-(\d+\.\d+\.\d+)', azps_dir.name)\<close>, group 1.
\<close>

definition match_version_here :: "string \<Rightarrow> string option" where
  "match_version_here s =
     (let major = takeWhile is_digit (drop 5 s);
          r1 = dropWhile is_digit (drop 5 s);
          minor = takeWhile is_digit (drop 1 r1);
          r2 = dropWhile is_digit (drop 1 r1);
          patch = takeWhile is_digit (drop 1 r2)
      in if startswith s ''azps-'' \<and> major \<noteq> [] \<and> startswith r1 ''.'' \<and> minor \<noteq> [] \<and>
            startswith r2 ''.'' \<and> patch \<noteq> []
         then Some (major @ ''.'' @ minor @ ''.'' @ patch)
         else None)"

fun search_version :: "string \<Rightarrow> string option" where
  "search_version [] = match_version_here []"
| "search_version (c # s) =
     (case match_version_here (c # s) of
        Some v \<Rightarrow> Some v
      | None \<Rightarrow> search_version s)"

text \<open>
  The loop over the version files: the first version seen for a module is kept.
\<close>

fun version_files :: "fsnode list \<Rightarrow> (string \<times> string) list \<Rightarrow> error + (string \<times> string) list" where
  "version_files [] module_version_map = Inr module_version_map"
| "version_files (ver_file # files) module_version_map =
     (case read_text ver_file of
        Inl err \<Rightarrow> Inl err
      | Inr text \<Rightarrow>
          (let fm = parse_front_matter text in
           case (map_of fm ''Module Version'', map_of fm ''Module Name'') of
             (Some mv, Some mn) \<Rightarrow>
               version_files files
                 (if map_of module_version_map mn = None
                  then AList.update mn mv module_version_map
                  else module_version_map)
           | _ \<Rightarrow> version_files files module_version_map))"

text \<open>
  The three structures that the loops of \<^verbatim>\<open>main\<close> fill.
\<close>

record aggregate =
  manifest_entries :: "manifest_entry list"
  descriptions :: "(string \<times> string) list"
  modules_data :: "(string \<times> module_data) list"

text \<open>
  The body of the inner loop for an accepted document, on \<^verbatim>\<open>manifest_entries\<close>,
  \<^verbatim>\<open>descriptions\<close> and \<^verbatim>\<open>module_cmdlets\<close>; then the inner loop over the files of a
  module directory and the outer loop over the entries of the version directory.
\<close>

definition add_cmdlet ::
  "string \<Rightarrow> string \<Rightarrow> command_doc \<Rightarrow>
   manifest_entry list \<times> (string \<times> string) list \<times> (string \<times> cmdlet_info) list \<Rightarrow>
   manifest_entry list \<times> (string \<times> string) list \<times> (string \<times> cmdlet_info) list" where
  "add_cmdlet module_name category result st =
     (case st of (entries, descs, module_cmdlets) \<Rightarrow>
        (let cname = doc_name result;
             verb = (case VERB_RE cname of Some v \<Rightarrow> v | None \<Rightarrow> ''Other'')
         in (entries @ [\<lparr>entry_n = cname, entry_v = verb, entry_m = module_name,
                          entry_c = category, entry_e = (doc_examples result \<noteq> [])\<rparr>],
             (if doc_description result \<noteq> []
              then AList.update cname (doc_description result) descs
              else descs),
             AList.update cname
               \<lparr>info_syntax = doc_syntax result, info_examples = doc_examples result\<rparr>
               module_cmdlets)))"

fun scan_files ::
  "string \<Rightarrow> string \<Rightarrow> fsnode list \<Rightarrow>
   manifest_entry list \<times> (string \<times> string) list \<times> (string \<times> cmdlet_info) list \<Rightarrow>
   error + manifest_entry list \<times> (string \<times> string) list \<times> (string \<times> cmdlet_info) list" where
  "scan_files module_name category [] st = Inr st"
| "scan_files module_name category (md_file # files) st =
     (case parse_cmdlet_doc module_name md_file of
        Inl err \<Rightarrow> Inl err
      | Inr None \<Rightarrow> scan_files module_name category files st
      | Inr (Some result) \<Rightarrow>
          scan_files module_name category files (add_cmdlet module_name category result st))"

fun scan_modules ::
  "(string \<times> string) list \<Rightarrow> fsnode list \<Rightarrow> aggregate \<Rightarrow> error + aggregate" where
  "scan_modules module_version_map [] agg = Inr agg"
| "scan_modules module_version_map (mod_dir # dirs) agg =
     (if \<not> is_dir mod_dir then scan_modules module_version_map dirs agg
      else if \<not> startswith (node_name mod_dir) ''Az.'' then scan_modules module_version_map dirs agg
      else
        (let module_name = node_name mod_dir;
             mod_version = (case map_of module_version_map module_name of
                              Some v \<Rightarrow> v | None \<Rightarrow> ''0.0.0'');
             category = get_category module_name
         in case scan_files module_name category (sorted_paths (glob_md mod_dir))
                  (manifest_entries agg, descriptions agg, []) of
              Inl err \<Rightarrow> Inl err
            | Inr (entries, descs, module_cmdlets) \<Rightarrow>
                scan_modules module_version_map dirs
                  \<lparr>manifest_entries = entries, descriptions = descs,
                   modules_data =
                     (if module_cmdlets \<noteq> []
                      then AList.update module_name
                             \<lparr>data_module = module_name, data_version = mod_version,
                              data_cmdlets = module_cmdlets\<rparr>
                             (modules_data agg)
                      else modules_data agg)\<rparr>))"

text \<open>
  The output directory: the directories that exist and the files with their content.
  The content of a file is the value passed to \<^verbatim>\<open>json.dump\<close>; the serialisation is not
  modelled. Paths are relative to the root of the repository.
\<close>

datatype json_file =
  Manifest_json string "manifest_entry list"
| Descriptions_json "(string \<times> string) list"
| Module_json module_data

record out_store =
  out_dirs :: "string set"
  out_files :: "(string \<times> json_file) list"

text \<open>
  The lines printed. \<open>Usage_line\<close> is
  \<^verbatim>\<open>Usage: python parse_docs.py <azure-docs-powershell-root>\<close>.
\<close>

datatype console_line =
  Usage_line
| Scanning_line string
| Found_line string string
| Processed_line nat nat
| Wrote_manifest_line nat
| Wrote_descriptions_line nat
| Wrote_modules_line nat

text \<open>
  How a run ends: normally, by \<^verbatim>\<open>sys.exit\<close> with a status, or by an exception that
  nothing catches.
\<close>

datatype outcome = Completed | Exited nat | Raised error

text \<open>
  The loop that writes one file per module.
\<close>

fun write_modules :: "(string \<times> module_data) list \<Rightarrow> (string \<times> json_file) list \<Rightarrow> (string \<times> json_file) list" where
  "write_modules [] files = files"
| "write_modules ((mod_name, data) # rest) files =
     write_modules rest
       (AList.update (''public/data/modules/'' @ mod_name @ ''.json'') (Module_json data) files)"

text \<open>
  \<open>main argv lookup out\<close>: \<open>argv\<close> is \<^verbatim>\<open>sys.argv\<close>, \<open>lookup\<close> gives the tree at a path
  of the input file system, if the path exists (listing a path that does not exist
  raises \<^verbatim>\<open>FileNotFoundError\<close>), and \<open>out\<close> is the output directory before the run.
  The result is how the run ends, what it printed, and the output directory after it.
\<close>

definition main ::
  "string list \<Rightarrow> (string \<Rightarrow> fsnode option) \<Rightarrow> out_store \<Rightarrow> outcome \<times> console_line list \<times> out_store" where
  "main argv lookup out =
     (if length argv < 2 then (Exited 1, [Usage_line], out)
      else
        (let docs_root = argv ! 1;
             out = out\<lparr>out_dirs := out_dirs out \<union>
                     {''public'', ''public/data'', ''public/data/modules''}\<rparr>;
             console = [Scanning_line docs_root]
         in case (case lookup docs_root of
                    None \<Rightarrow> Inl FileNotFoundError
                  | Some root \<Rightarrow> find_latest_azps_dir root) of
              Inl err \<Rightarrow> (Raised err, console, out)
            | Inr azps_dir \<Rightarrow>
                (let version = (case search_version (node_name azps_dir) of
                                  Some v \<Rightarrow> v | None \<Rightarrow> ''0.0.0'');
                     console = console @ [Found_line (node_name azps_dir) version]
                 in case version_files (rglob_md azps_dir) [] of
                      Inl err \<Rightarrow> (Raised err, console, out)
                    | Inr module_version_map \<Rightarrow>
                        (case scan_modules module_version_map (sorted_paths (iterdir azps_dir))
                                \<lparr>manifest_entries = [], descriptions = [], modules_data = []\<rparr> of
                           Inl err \<Rightarrow> (Raised err, console, out)
                         | Inr agg \<Rightarrow>
                             (Completed,
                              console @
                                [Processed_line (length (manifest_entries agg))
                                   (length (modules_data agg)),
                                 Wrote_manifest_line (length (manifest_entries agg)),
                                 Wrote_descriptions_line (length (descriptions agg)),
                                 Wrote_modules_line (length (modules_data agg))],
                              out\<lparr>out_files :=
                                    write_modules (modules_data agg)
                                      (AList.update ''public/data/descriptions.json''
                                         (Descriptions_json (descriptions agg))
                                         (AList.update ''public/data/manifest.json''
                                            (Manifest_json version (manifest_entries agg))
                                            (out_files out)))\<rparr>)))))"

section \<open>Properties of the pipeline\<close>

text \<open>
  The words of the specification. The accepted documents of a module directory are the
  results of the classifier on its \<^verbatim>\<open>*.md\<close> entries, in sorted order. The module
  directories are the directories among the sorted entries of the version directory
  whose names start with \<^verbatim>\<open>Az.\<close> The documents of a run are the accepted documents of
  all module directories in processing order, each with the name of its directory.
\<close>

definition accepted_docs :: "string \<Rightarrow> fsnode list \<Rightarrow> command_doc list" where
  "accepted_docs module_name files =
     List.map_filter
       (\<lambda>f. case parse_cmdlet_doc module_name f of Inr (Some doc) \<Rightarrow> Some doc | _ \<Rightarrow> None)
       files"

definition module_docs :: "fsnode \<Rightarrow> command_doc list" where
  "module_docs mod_dir = accepted_docs (node_name mod_dir) (sorted_paths (glob_md mod_dir))"

definition is_module_dir :: "fsnode \<Rightarrow> bool" where
  "is_module_dir d = (is_dir d \<and> startswith (node_name d) ''Az.'')"

definition module_dirs :: "fsnode \<Rightarrow> fsnode list" where
  "module_dirs azps_dir = filter is_module_dir (sorted_paths (iterdir azps_dir))"

definition documents_of :: "fsnode \<Rightarrow> (string \<times> command_doc) list" where
  "documents_of azps_dir =
     concat (map (\<lambda>d. map (Pair (node_name d)) (module_docs d)) (module_dirs azps_dir))"

definition entry_of :: "string \<times> command_doc \<Rightarrow> manifest_entry" where
  "entry_of md =
     \<lparr>entry_n = doc_name (snd md),
      entry_v = (case VERB_RE (doc_name (snd md)) of Some v \<Rightarrow> v | None \<Rightarrow> ''Other''),
      entry_m = fst md,
      entry_c = get_category (fst md),
      entry_e = (doc_examples (snd md) \<noteq> [])\<rparr>"

definition info_of :: "command_doc \<Rightarrow> cmdlet_info" where
  "info_of doc = \<lparr>info_syntax = doc_syntax doc, info_examples = doc_examples doc\<rparr>"

definition put_description :: "command_doc \<Rightarrow> (string \<times> string) list \<Rightarrow> (string \<times> string) list" where
  "put_description doc descs =
     (if doc_description doc \<noteq> [] then AList.update (doc_name doc) (doc_description doc) descs
      else descs)"

definition put_cmdlet :: "command_doc \<Rightarrow> (string \<times> cmdlet_info) list \<Rightarrow> (string \<times> cmdlet_info) list" where
  "put_cmdlet doc cmdlets = AList.update (doc_name doc) (info_of doc) cmdlets"

lemma add_cmdlet_parts:
  "add_cmdlet module_name (get_category module_name) doc (entries, descs, cmdlets) =
     (entries @ [entry_of (module_name, doc)], put_description doc descs, put_cmdlet doc cmdlets)"
  by (simp add: add_cmdlet_def entry_of_def put_description_def put_cmdlet_def info_of_def Let_def)

lemma scan_files_fold:
  "scan_files module_name (get_category module_name) files (entries, descs, cmdlets) = Inr st \<Longrightarrow>
   st = (entries @ map (\<lambda>doc. entry_of (module_name, doc)) (accepted_docs module_name files),
         fold put_description (accepted_docs module_name files) descs,
         fold put_cmdlet (accepted_docs module_name files) cmdlets)"
proof (induction files arbitrary: entries descs cmdlets)
  case Nil
  then show ?case by (simp add: accepted_docs_def)
next
  case (Cons f files)
  show ?case
  proof (cases "parse_cmdlet_doc module_name f")
    case (Inl err)
    with Cons.prems show ?thesis by simp
  next
    case (Inr r)
    show ?thesis
    proof (cases r)
      case None
      with Inr Cons.prems have "scan_files module_name (get_category module_name) files
          (entries, descs, cmdlets) = Inr st" by simp
      from Cons.IH[OF this] Inr None show ?thesis by (simp add: accepted_docs_def)
    next
      case (Some doc)
      with Inr Cons.prems have "scan_files module_name (get_category module_name) files
          (entries @ [entry_of (module_name, doc)], put_description doc descs,
           put_cmdlet doc cmdlets) = Inr st"
        by (simp add: add_cmdlet_parts)
      from Cons.IH[OF this] Inr Some show ?thesis by (simp add: accepted_docs_def)
    qed
  qed
qed

definition put_module ::
  "(string \<times> string) list \<Rightarrow> fsnode \<Rightarrow> (string \<times> module_data) list \<Rightarrow> (string \<times> module_data) list" where
  "put_module module_version_map mod_dir mods =
     (if fold put_cmdlet (module_docs mod_dir) [] \<noteq> []
      then AList.update (node_name mod_dir)
             \<lparr>data_module = node_name mod_dir,
              data_version = (case map_of module_version_map (node_name mod_dir) of
                                Some v \<Rightarrow> v | None \<Rightarrow> ''0.0.0''),
              data_cmdlets = fold put_cmdlet (module_docs mod_dir) []\<rparr>
             mods
      else mods)"

lemma scan_modules_fold:
  "scan_modules mvm dirs agg = Inr agg' \<Longrightarrow>
   manifest_entries agg' =
     manifest_entries agg @
     map entry_of (concat (map (\<lambda>d. map (Pair (node_name d)) (module_docs d))
                             (filter is_module_dir dirs))) \<and>
   descriptions agg' =
     fold put_description
       (map snd (concat (map (\<lambda>d. map (Pair (node_name d)) (module_docs d))
                           (filter is_module_dir dirs))))
       (descriptions agg) \<and>
   modules_data agg' = fold (put_module mvm) (filter is_module_dir dirs) (modules_data agg)"
proof (induction dirs arbitrary: agg)
  case Nil
  then show ?case by simp
next
  case (Cons d dirs)
  show ?case
  proof (cases "is_module_dir d")
    case False
    with Cons.prems have "scan_modules mvm dirs agg = Inr agg'"
      by (auto simp: is_module_dir_def split: if_splits)
    from Cons.IH[OF this] False show ?thesis by simp
  next
    case True
    let ?mn = "node_name d"
    from True Cons.prems obtain st where
      st: "scan_files ?mn (get_category ?mn) (sorted_paths (glob_md d))
             (manifest_entries agg, descriptions agg, []) = Inr st"
      by (auto simp: is_module_dir_def Let_def split: sum.splits)
    from scan_files_fold[OF st] have st_eq:
      "st = (manifest_entries agg @ map (\<lambda>doc. entry_of (?mn, doc)) (module_docs d),
             fold put_description (module_docs d) (descriptions agg),
             fold put_cmdlet (module_docs d) [])"
      by (simp add: module_docs_def)
    let ?agg1 = "\<lparr>manifest_entries =
                    manifest_entries agg @ map (\<lambda>doc. entry_of (?mn, doc)) (module_docs d),
                  descriptions = fold put_description (module_docs d) (descriptions agg),
                  modules_data = put_module mvm d (modules_data agg)\<rparr>"
    from True Cons.prems st st_eq have "scan_modules mvm dirs ?agg1 = Inr agg'"
      by (simp add: is_module_dir_def Let_def put_module_def)
    from Cons.IH[OF this] True show ?thesis by (simp add: comp_def)
  qed
qed

lemma find_rev_snoc: "find P (rev (xs @ [x])) = (if P x then Some x else find P (rev xs))"
  by simp

lemma map_of_put_description:
  "map_of (put_description doc descs) name =
     (if doc_name doc = name \<and> doc_description doc \<noteq> [] then Some (doc_description doc)
      else map_of descs name)"
  by (simp add: put_description_def update_conv')

lemma map_of_fold_put_description:
  "map_of (fold put_description docs descs) name =
     (case find (\<lambda>doc. doc_name doc = name \<and> doc_description doc \<noteq> []) (rev docs) of
        Some doc \<Rightarrow> Some (doc_description doc)
      | None \<Rightarrow> map_of descs name)"
proof (induction docs rule: rev_induct)
  case Nil
  then show ?case by simp
next
  case (snoc doc docs)
  then show ?case by (simp add: map_of_put_description)
qed

lemma map_of_fold_put_cmdlet:
  "map_of (fold put_cmdlet docs cmdlets) name =
     (case find (\<lambda>doc. doc_name doc = name) (rev docs) of
        Some doc \<Rightarrow> Some (info_of doc)
      | None \<Rightarrow> map_of cmdlets name)"
proof (induction docs rule: rev_induct)
  case Nil
  then show ?case by simp
next
  case (snoc doc docs)
  then show ?case by (simp add: put_cmdlet_def update_conv')
qed

lemma distinct_fold_put_description:
  "distinct (map fst descs) \<Longrightarrow> distinct (map fst (fold put_description docs descs))"
  by (induction docs arbitrary: descs) (auto simp: put_description_def distinct_update)

lemma distinct_fold_put_cmdlet:
  "distinct (map fst cmdlets) \<Longrightarrow> distinct (map fst (fold put_cmdlet docs cmdlets))"
  by (induction docs arbitrary: cmdlets) (auto simp: put_cmdlet_def distinct_update)

lemma in_set_updateD: "x \<in> set (AList.update k v al) \<Longrightarrow> x = (k, v) \<or> x \<in> set al"
  by (induction al) (auto split: if_splits)

lemma in_fold_put_module:
  "(k, data) \<in> set (fold (put_module mvm) dirs mods) \<Longrightarrow>
   (k, data) \<in> set mods \<or>
   (\<exists>d \<in> set dirs. k = node_name d \<and>
      data = \<lparr>data_module = node_name d,
              data_version = (case map_of mvm (node_name d) of Some v \<Rightarrow> v | None \<Rightarrow> ''0.0.0''),
              data_cmdlets = fold put_cmdlet (module_docs d) []\<rparr> \<and>
      fold put_cmdlet (module_docs d) [] \<noteq> [])"
proof (induction dirs arbitrary: mods)
  case Nil
  then show ?case by simp
next
  case (Cons d dirs)
  from Cons.prems have "(k, data) \<in> set (fold (put_module mvm) dirs (put_module mvm d mods))"
    by simp
  from Cons.IH[OF this] show ?case
  proof
    assume "(k, data) \<in> set (put_module mvm d mods)"
    then show ?thesis
      by (auto simp: put_module_def dest!: in_set_updateD split: if_splits)
  next
    assume "\<exists>d \<in> set dirs. k = node_name d \<and>
      data = \<lparr>data_module = node_name d,
              data_version = (case map_of mvm (node_name d) of Some v \<Rightarrow> v | None \<Rightarrow> ''0.0.0''),
              data_cmdlets = fold put_cmdlet (module_docs d) []\<rparr> \<and>
      fold put_cmdlet (module_docs d) [] \<noteq> []"
    then show ?thesis by auto
  qed
qed

lemma map_of_write_modules:
  "map_of (write_modules mods files) path = Some j \<Longrightarrow>
   map_of files path = Some j \<or>
   (\<exists>(k, data) \<in> set mods. path = ''public/data/modules/'' @ k @ ''.json'' \<and> j = Module_json data)"
proof (induction mods arbitrary: files)
  case Nil
  then show ?case by simp
next
  case (Cons m mods)
  obtain k data where m: "m = (k, data)" by (cases m)
  let ?files = "AList.update (''public/data/modules/'' @ k @ ''.json'') (Module_json data) files"
  from Cons.prems m have "map_of (write_modules mods ?files) path = Some j" by simp
  from Cons.IH[OF this] show ?case
  proof
    assume "map_of ?files path = Some j"
    then show ?thesis using m by (auto simp: update_conv' split: if_splits)
  next
    assume "\<exists>(k, data) \<in> set mods.
        path = ''public/data/modules/'' @ k @ ''.json'' \<and> j = Module_json data"
    then show ?thesis by auto
  qed
qed

lemma map_of_write_modules_other:
  "\<forall>k. path \<noteq> ''public/data/modules/'' @ k @ ''.json'' \<Longrightarrow>
   map_of (write_modules mods files) path = map_of files path"
proof (induction mods arbitrary: files)
  case Nil
  then show ?case by simp
next
  case (Cons m mods)
  obtain k data where m: "m = (k, data)" by (cases m)
  with Cons show ?case by (simp add: update_conv')
qed

lemma main_usage: "length argv < 2 \<Longrightarrow> main argv lookup out = (Exited 1, [Usage_line], out)"
  by (simp add: main_def)

lemma main_completed:
  assumes "main argv lookup out = (Completed, console, out')"
  obtains root azps_dir mvm agg where
    "lookup (argv ! 1) = Some root"
    "find_latest_azps_dir root = Inr azps_dir"
    "version_files (rglob_md azps_dir) [] = Inr mvm"
    "scan_modules mvm (sorted_paths (iterdir azps_dir))
       \<lparr>manifest_entries = [], descriptions = [], modules_data = []\<rparr> = Inr agg"
    "out_files out' =
       write_modules (modules_data agg)
         (AList.update ''public/data/descriptions.json'' (Descriptions_json (descriptions agg))
            (AList.update ''public/data/manifest.json''
               (Manifest_json
                  (case search_version (node_name azps_dir) of Some v \<Rightarrow> v | None \<Rightarrow> ''0.0.0'')
                  (manifest_entries agg))
               (out_files out)))"
proof -
  from assms have len: "\<not> length argv < 2" by (auto simp: main_def)
  from assms len obtain root where root: "lookup (argv ! 1) = Some root"
    by (cases "lookup (argv ! 1)") (auto simp: main_def Let_def)
  from assms len root obtain azps_dir where azps: "find_latest_azps_dir root = Inr azps_dir"
    by (cases "find_latest_azps_dir root") (auto simp: main_def Let_def)
  from assms len root azps obtain mvm where mvm: "version_files (rglob_md azps_dir) [] = Inr mvm"
    by (cases "version_files (rglob_md azps_dir) []") (auto simp: main_def Let_def)
  from assms len root azps mvm obtain agg where
    agg: "scan_modules mvm (sorted_paths (iterdir azps_dir))
       \<lparr>manifest_entries = [], descriptions = [], modules_data = []\<rparr> = Inr agg"
    by (cases "scan_modules mvm (sorted_paths (iterdir azps_dir))
       \<lparr>manifest_entries = [], descriptions = [], modules_data = []\<rparr>")
      (auto simp: main_def Let_def)
  from assms len root azps mvm agg have "out_files out' =
       write_modules (modules_data agg)
         (AList.update ''public/data/descriptions.json'' (Descriptions_json (descriptions agg))
            (AList.update ''public/data/manifest.json''
               (Manifest_json
                  (case search_version (node_name azps_dir) of Some v \<Rightarrow> v | None \<Rightarrow> ''0.0.0'')
                  (manifest_entries agg))
               (out_files out)))"
    by (auto simp: main_def Let_def)
  with root azps mvm agg show thesis by (rule that)
qed

lemma main_not_completed:
  assumes "main argv lookup out = (oc, console, out')" and "oc \<noteq> Completed"
  shows "out_files out' = out_files out"
  using assms by (auto simp: main_def Let_def split: if_splits option.splits sum.splits)

definition declared_version :: "fsnode \<Rightarrow> (string \<times> string) option" where
  "declared_version f =
     (case read_text f of
        Inl err \<Rightarrow> None
      | Inr text \<Rightarrow>
          (case (map_of (parse_front_matter text) ''Module Version'',
                 map_of (parse_front_matter text) ''Module Name'') of
             (Some mv, Some mn) \<Rightarrow> Some (mn, mv)
           | _ \<Rightarrow> None))"

definition is_version :: "string \<Rightarrow> bool" where
  "is_version v =
     (\<exists>major minor patch. v = major @ ''.'' @ minor @ ''.'' @ patch \<and>
        major \<noteq> [] \<and> minor \<noteq> [] \<and> patch \<noteq> [] \<and>
        (\<forall>c \<in> set (major @ minor @ patch). is_digit c))"

lemma version_files_first:
  "version_files files mvm0 = Inr mvm \<Longrightarrow>
   map_of mvm mn =
     (case map_of mvm0 mn of
        Some v \<Rightarrow> Some v
      | None \<Rightarrow> map_of (List.map_filter declared_version files) mn)"
proof (induction files arbitrary: mvm0)
  case Nil
  then show ?case by (auto split: option.splits)
next
  case (Cons f files)
  from Cons.prems obtain content where content: "read_text f = Inr content"
    by (cases "read_text f") auto
  let ?fm = "parse_front_matter content"
  show ?case
  proof (cases "declared_version f")
    case None
    with content Cons.prems have "version_files files mvm0 = Inr mvm"
      by (auto simp: declared_version_def Let_def split: option.splits)
    from Cons.IH[OF this] None show ?thesis by (simp split: option.splits)
  next
    case (Some d)
    obtain dn dv where d: "d = (dn, dv)" by (cases d)
    with Some content have fields: "map_of ?fm ''Module Version'' = Some dv"
      "map_of ?fm ''Module Name'' = Some dn"
      by (auto simp: declared_version_def split: option.splits)
    let ?mvm1 = "if map_of mvm0 dn = None then AList.update dn dv mvm0 else mvm0"
    from content fields Cons.prems have "version_files files ?mvm1 = Inr mvm"
      by (simp add: Let_def)
    from Cons.IH[OF this] have "map_of mvm mn =
      (case map_of ?mvm1 mn of
         Some v \<Rightarrow> Some v
       | None \<Rightarrow> map_of (List.map_filter declared_version files) mn)" .
    with Some d show ?thesis
      by (auto simp: update_conv' split: option.splits if_splits)
  qed
qed

lemma match_version_here_sound:
  assumes "match_version_here s = Some v"
  shows "is_version v \<and> (\<exists>after. s = ''azps-'' @ v @ after)"
proof -
  let ?r0 = "drop 5 s"
  let ?major = "takeWhile is_digit ?r0" and ?r1 = "dropWhile is_digit ?r0"
  let ?minor = "takeWhile is_digit (drop 1 ?r1)" and ?r2 = "dropWhile is_digit (drop 1 ?r1)"
  let ?patch = "takeWhile is_digit (drop 1 ?r2)" and ?r3 = "dropWhile is_digit (drop 1 ?r2)"
  from assms have s: "startswith s ''azps-''" and ne: "?major \<noteq> []" "?minor \<noteq> []" "?patch \<noteq> []"
    and d1: "startswith ?r1 ''.''" and d2: "startswith ?r2 ''.''"
    and v: "v = ?major @ ''.'' @ ?minor @ ''.'' @ ?patch"
    by (auto simp: match_version_here_def Let_def split: if_splits)
  from s have s0: "s = ''azps-'' @ ?r0" by (auto simp: startswith_iff)
  have r0: "?r0 = ?major @ ?r1" by simp
  from d1 have r1: "?r1 = ''.'' @ drop 1 ?r1" by (auto simp: startswith_iff)
  have r1': "drop 1 ?r1 = ?minor @ ?r2" by simp
  from d2 have r2: "?r2 = ''.'' @ drop 1 ?r2" by (auto simp: startswith_iff)
  have r2': "drop 1 ?r2 = ?patch @ ?r3" by simp
  have "?r0 = ?major @ ''.'' @ ?minor @ ''.'' @ ?patch @ ?r3"
    by (metis r0 r1 r1' r2 r2')
  with s0 v have "s = ''azps-'' @ v @ ?r3" by (metis append.assoc)
  moreover have "\<forall>c \<in> set (?major @ ?minor @ ?patch). is_digit c"
    by (auto dest: set_takeWhileD)
  ultimately show ?thesis unfolding is_version_def using v ne by blast
qed

lemma search_version_sound:
  "search_version s = Some v \<Longrightarrow> is_version v \<and> (\<exists>before after. s = before @ ''azps-'' @ v @ after)"
proof (induction s)
  case Nil
  from match_version_here_sound[of "[]" v] Nil have "is_version v \<and> (\<exists>after. [] = ''azps-'' @ v @ after)"
    by simp
  then show ?case by simp
next
  case (Cons c s)
  show ?case
  proof (cases "match_version_here (c # s)")
    case (Some w)
    with Cons.prems have "w = v" by simp
    with Some match_version_here_sound[of "c # s" v]
    have "is_version v \<and> (\<exists>after. c # s = [] @ ''azps-'' @ v @ after)" by simp
    then show ?thesis by blast
  next
    case None
    with Cons.prems have "search_version s = Some v" by simp
    from Cons.IH[OF this] obtain before after where "is_version v"
      "s = before @ ''azps-'' @ v @ after" by blast
    then have "is_version v \<and> c # s = (c # before) @ ''azps-'' @ v @ after" by simp
    then show ?thesis by blast
  qed
qed

lemma parse_cmdlet_doc_Some:
  "parse_cmdlet_doc parent f = Inr (Some doc) \<Longrightarrow> cmdlet_name_re (doc_name doc)"
  by (cases f) (auto simp: parse_cmdlet_doc_def Let_def split: if_splits sum.splits)

lemma in_map_filterD: "y \<in> set (List.map_filter g xs) \<Longrightarrow> \<exists>x \<in> set xs. g x = Some y"
  by (induction xs) (auto simp: List.map_filter_simps split: option.splits)

lemma module_docs_names: "doc \<in> set (module_docs d) \<Longrightarrow> cmdlet_name_re (doc_name doc)"
proof -
  assume "doc \<in> set (module_docs d)"
  then obtain f where "parse_cmdlet_doc (node_name d) f = Inr (Some doc)"
    by (auto simp: module_docs_def accepted_docs_def dest!: in_map_filterD
        split: sum.splits option.splits)
  then show ?thesis by (rule parse_cmdlet_doc_Some)
qed

lemma documents_of_entry:
  assumes "md \<in> set (documents_of azps_dir)"
  shows "is_cmdlet_name (entry_v (entry_of md)) (entry_n (entry_of md)) \<and>
         (\<exists>suffix. entry_m (entry_of md) = ''Az.'' @ suffix)"
proof -
  from assms obtain d where d: "d \<in> set (module_dirs azps_dir)" "fst md = node_name d"
    "snd md \<in> set (module_docs d)"
    by (auto simp: documents_of_def)
  from d(3) have "cmdlet_name_re (doc_name (snd md))" by (rule module_docs_names)
  then obtain verb where verb: "VERB_RE (doc_name (snd md)) = Some verb"
    by (auto simp: cmdlet_name_re_VERB_RE)
  then have "is_cmdlet_name verb (doc_name (snd md))" by (simp add: VERB_RE_iff)
  with verb have "is_cmdlet_name (entry_v (entry_of md)) (entry_n (entry_of md))"
    by (simp add: entry_of_def)
  moreover from d(1,2) have "\<exists>suffix. entry_m (entry_of md) = ''Az.'' @ suffix"
    by (auto simp: module_dirs_def is_module_dir_def entry_of_def startswith_iff)
  ultimately show ?thesis by blast
qed

lemma scan_modules_documents:
  assumes "scan_modules mvm (sorted_paths (iterdir azps_dir))
       \<lparr>manifest_entries = [], descriptions = [], modules_data = []\<rparr> = Inr agg"
  shows "manifest_entries agg = map entry_of (documents_of azps_dir)"
    and "descriptions agg = fold put_description (map snd (documents_of azps_dir)) []"
    and "modules_data agg = fold (put_module mvm) (module_dirs azps_dir) []"
proof -
  have md: "filter is_module_dir (sorted_paths (iterdir azps_dir)) = module_dirs azps_dir"
    by (simp add: module_dirs_def)
  from scan_modules_fold[OF assms] show "manifest_entries agg = map entry_of (documents_of azps_dir)"
    and "descriptions agg = fold put_description (map snd (documents_of azps_dir)) []"
    and "modules_data agg = fold (put_module mvm) (module_dirs azps_dir) []"
    unfolding md documents_of_def by simp_all
qed

lemma manifest_path_not_module: "''public/data/manifest.json'' \<noteq> ''public/data/modules/'' @ k @ ''.json''"
  by simp

lemma descriptions_path_not_module:
  "''public/data/descriptions.json'' \<noteq> ''public/data/modules/'' @ k @ ''.json''"
  by simp

lemma find_latest_azps_dir_not_found:
  "level1 entries = {} \<Longrightarrow> level2 entries = {} \<Longrightarrow>
   find_latest_azps_dir (Dir name entries) = Inl FileNotFoundError"
proof -
  assume l1: "level1 entries = {}" and l2: "level2 entries = {}"
  from l1 have a: "azps_dirs entries = []" using set_azps_dirs[of entries] by simp
  from l2 have "set (deeper_candidates entries []) = {}" by (simp add: set_deeper_candidates)
  then have "deeper_candidates entries [] = []" by simp
  with a show ?thesis by simp
qed

lemma find_map_snd: "find P (map snd xs) = map_option snd (find (\<lambda>x. P (snd x)) xs)"
  by (induction xs) auto

lemma main_manifest_file:
  assumes "out_files out' =
       write_modules mods
         (AList.update ''public/data/descriptions.json'' (Descriptions_json descs)
            (AList.update ''public/data/manifest.json'' (Manifest_json version entries) files))"
  shows "map_of (out_files out') ''public/data/manifest.json'' = Some (Manifest_json version entries)"
    and "map_of (out_files out') ''public/data/descriptions.json'' = Some (Descriptions_json descs)"
  unfolding assms
  by (simp_all add: map_of_write_modules_other manifest_path_not_module
      descriptions_path_not_module update_conv')

lemma main_module_file:
  assumes files: "out_files out' =
       write_modules mods
         (AList.update ''public/data/descriptions.json'' (Descriptions_json descs)
            (AList.update ''public/data/manifest.json'' (Manifest_json version entries) files))"
    and new: "map_of (out_files out') path = Some (Module_json data)"
      "map_of files path \<noteq> Some (Module_json data)"
  shows "\<exists>k. (k, data) \<in> set mods"
proof -
  let ?files0 = "AList.update ''public/data/descriptions.json'' (Descriptions_json descs)
            (AList.update ''public/data/manifest.json'' (Manifest_json version entries) files)"
  from new(1) files have "map_of (write_modules mods ?files0) path = Some (Module_json data)"
    by simp
  from map_of_write_modules[OF this] show ?thesis
  proof
    assume "map_of ?files0 path = Some (Module_json data)"
    with new(2) show ?thesis by (auto simp: update_conv' split: if_splits)
  next
    assume "\<exists>(k, d) \<in> set mods. path = ''public/data/modules/'' @ k @ ''.json'' \<and>
        Module_json data = Module_json d"
    then show ?thesis by auto
  qed
qed

text \<open>
  Claim C4. In every run that completes, every entry of the manifest has a name that is
  a verb (the one in its verb field), \<^verbatim>\<open>-Az\<close> and a rest, and a module that starts with
  \<^verbatim>\<open>Az.\<close>; a module file is written only for a module whose mapping of commands is not
  empty; the version of the manifest is the version found in the name of the version
  directory, or \<^verbatim>\<open>0.0.0\<close> when there is none, and the version of a module is the version
  that the first front matter declaring one for the module gives, or \<^verbatim>\<open>0.0.0\<close>.
\<close>

theorem main_output_invariants:
  "main argv lookup out = (Completed, console, out') \<longrightarrow>
   (\<exists>root azps_dir version entries.
      lookup (argv ! 1) = Some root \<and> find_latest_azps_dir root = Inr azps_dir \<and>
      map_of (out_files out') ''public/data/manifest.json'' = Some (Manifest_json version entries) \<and>
      (\<forall>e \<in> set entries.
         is_cmdlet_name (entry_v e) (entry_n e) \<and> (\<exists>suffix. entry_m e = ''Az.'' @ suffix)) \<and>
      (case search_version (node_name azps_dir) of
         Some v \<Rightarrow> version = v \<and> is_version v \<and>
                   (\<exists>before after. node_name azps_dir = before @ ''azps-'' @ v @ after)
       | None \<Rightarrow> version = ''0.0.0'') \<and>
      (\<forall>path data.
         map_of (out_files out') path = Some (Module_json data) \<and>
         map_of (out_files out) path \<noteq> Some (Module_json data) \<longrightarrow>
           data_cmdlets data \<noteq> [] \<and>
           (\<exists>suffix. data_module data = ''Az.'' @ suffix) \<and>
           data_version data =
             (case map_of (List.map_filter declared_version (rglob_md azps_dir))
                     (data_module data) of
                Some v \<Rightarrow> v
              | None \<Rightarrow> ''0.0.0'')))"
proof
  assume run: "main argv lookup out = (Completed, console, out')"
  from run obtain root azps_dir mvm agg where
    root: "lookup (argv ! 1) = Some root" and azps: "find_latest_azps_dir root = Inr azps_dir"
    and mvm: "version_files (rglob_md azps_dir) [] = Inr mvm"
    and agg: "scan_modules mvm (sorted_paths (iterdir azps_dir))
       \<lparr>manifest_entries = [], descriptions = [], modules_data = []\<rparr> = Inr agg"
    and files: "out_files out' =
       write_modules (modules_data agg)
         (AList.update ''public/data/descriptions.json'' (Descriptions_json (descriptions agg))
            (AList.update ''public/data/manifest.json''
               (Manifest_json
                  (case search_version (node_name azps_dir) of Some v \<Rightarrow> v | None \<Rightarrow> ''0.0.0'')
                  (manifest_entries agg))
               (out_files out)))"
    by (rule main_completed)
  let ?version = "case search_version (node_name azps_dir) of Some v \<Rightarrow> v | None \<Rightarrow> ''0.0.0''"
  note docs = scan_modules_documents[OF agg]
  have manifest: "map_of (out_files out') ''public/data/manifest.json'' =
      Some (Manifest_json ?version (manifest_entries agg))"
    using files by (rule main_manifest_file)
  have entries: "\<forall>e \<in> set (manifest_entries agg).
      is_cmdlet_name (entry_v e) (entry_n e) \<and> (\<exists>suffix. entry_m e = ''Az.'' @ suffix)"
    unfolding docs(1) using documents_of_entry by auto
  have version: "case search_version (node_name azps_dir) of
         Some v \<Rightarrow> ?version = v \<and> is_version v \<and>
                   (\<exists>before after. node_name azps_dir = before @ ''azps-'' @ v @ after)
       | None \<Rightarrow> ?version = ''0.0.0''"
    using search_version_sound[of "node_name azps_dir"] by (auto split: option.splits)
  have modules: "data_cmdlets data \<noteq> [] \<and>
           (\<exists>suffix. data_module data = ''Az.'' @ suffix) \<and>
           data_version data =
             (case map_of (List.map_filter declared_version (rglob_md azps_dir))
                     (data_module data) of
                Some v \<Rightarrow> v
              | None \<Rightarrow> ''0.0.0'')"
    if new: "map_of (out_files out') path = Some (Module_json data) \<and>
         map_of (out_files out) path \<noteq> Some (Module_json data)" for path data
  proof -
    from main_module_file[OF files] new obtain k where "(k, data) \<in> set (modules_data agg)"
      by blast
    then have "(k, data) \<in> set (fold (put_module mvm) (module_dirs azps_dir) [])"
      by (simp add: docs(3))
    from in_fold_put_module[OF this] obtain d where d: "d \<in> set (module_dirs azps_dir)"
      and data: "data = \<lparr>data_module = node_name d,
              data_version = (case map_of mvm (node_name d) of Some v \<Rightarrow> v | None \<Rightarrow> ''0.0.0''),
              data_cmdlets = fold put_cmdlet (module_docs d) []\<rparr>"
      and ne: "fold put_cmdlet (module_docs d) [] \<noteq> []"
      by auto
    from version_files_first[OF mvm] have "map_of mvm (node_name d) =
        map_of (List.map_filter declared_version (rglob_md azps_dir)) (node_name d)"
      by simp
    moreover from d have "\<exists>suffix. node_name d = ''Az.'' @ suffix"
      by (auto simp: module_dirs_def is_module_dir_def startswith_iff)
    ultimately show ?thesis using data ne by simp
  qed
  from root azps manifest entries version modules
  show "\<exists>root azps_dir version entries.
      lookup (argv ! 1) = Some root \<and> find_latest_azps_dir root = Inr azps_dir \<and>
      map_of (out_files out') ''public/data/manifest.json'' = Some (Manifest_json version entries) \<and>
      (\<forall>e \<in> set entries.
         is_cmdlet_name (entry_v e) (entry_n e) \<and> (\<exists>suffix. entry_m e = ''Az.'' @ suffix)) \<and>
      (case search_version (node_name azps_dir) of
         Some v \<Rightarrow> version = v \<and> is_version v \<and>
                   (\<exists>before after. node_name azps_dir = before @ ''azps-'' @ v @ after)
       | None \<Rightarrow> version = ''0.0.0'') \<and>
      (\<forall>path data.
         map_of (out_files out') path = Some (Module_json data) \<and>
         map_of (out_files out) path \<noteq> Some (Module_json data) \<longrightarrow>
           data_cmdlets data \<noteq> [] \<and>
           (\<exists>suffix. data_module data = ''Az.'' @ suffix) \<and>
           data_version data =
             (case map_of (List.map_filter declared_version (rglob_md azps_dir))
                     (data_module data) of
                Some v \<Rightarrow> v
              | None \<Rightarrow> ''0.0.0''))"
    by blast
qed

lemma descriptions_lookup:
  "map_of (fold put_description (map snd docs) []) name =
     (case find (\<lambda>md. doc_name (snd md) = name \<and> doc_description (snd md) \<noteq> []) (rev docs) of
        Some md \<Rightarrow> Some (doc_description (snd md))
      | None \<Rightarrow> None)"
proof -
  let ?P = "\<lambda>doc. doc_name doc = name \<and> doc_description doc \<noteq> []"
  have "find ?P (rev (map snd docs)) = map_option snd (find (\<lambda>md. ?P (snd md)) (rev docs))"
    unfolding rev_map by (rule find_map_snd)
  then show ?thesis
    by (cases "find (\<lambda>md. ?P (snd md)) (rev docs)") (simp_all add: map_of_fold_put_description)
qed

text \<open>
  Claim C8, as amended. In every run that completes, the keys of the description index
  are command names, each once, and the index holds for a name the description of the
  last document, in processing order, that has this name and a description that is not
  empty; a name without such a document is not in the index.
\<close>

theorem descriptions_last_nonempty:
  "main argv lookup out = (Completed, console, out') \<longrightarrow>
   (\<exists>root azps_dir descs.
      lookup (argv ! 1) = Some root \<and> find_latest_azps_dir root = Inr azps_dir \<and>
      map_of (out_files out') ''public/data/descriptions.json'' = Some (Descriptions_json descs) \<and>
      distinct (map fst descs) \<and>
      (\<forall>name. map_of descs name =
         (case find (\<lambda>md. doc_name (snd md) = name \<and> doc_description (snd md) \<noteq> [])
                 (rev (documents_of azps_dir)) of
            Some md \<Rightarrow> Some (doc_description (snd md))
          | None \<Rightarrow> None)))"
proof
  assume run: "main argv lookup out = (Completed, console, out')"
  from run obtain root azps_dir mvm agg where
    root: "lookup (argv ! 1) = Some root" and azps: "find_latest_azps_dir root = Inr azps_dir"
    and agg: "scan_modules mvm (sorted_paths (iterdir azps_dir))
       \<lparr>manifest_entries = [], descriptions = [], modules_data = []\<rparr> = Inr agg"
    and files: "out_files out' =
       write_modules (modules_data agg)
         (AList.update ''public/data/descriptions.json'' (Descriptions_json (descriptions agg))
            (AList.update ''public/data/manifest.json''
               (Manifest_json
                  (case search_version (node_name azps_dir) of Some v \<Rightarrow> v | None \<Rightarrow> ''0.0.0'')
                  (manifest_entries agg))
               (out_files out)))"
    by (rule main_completed)
  note docs = scan_modules_documents[OF agg]
  have "map_of (out_files out') ''public/data/descriptions.json'' =
      Some (Descriptions_json (descriptions agg))"
    using files by (rule main_manifest_file)
  moreover have "distinct (map fst (descriptions agg))"
    unfolding docs(2) by (rule distinct_fold_put_description) simp
  moreover have "\<forall>name. map_of (descriptions agg) name =
         (case find (\<lambda>md. doc_name (snd md) = name \<and> doc_description (snd md) \<noteq> [])
                 (rev (documents_of azps_dir)) of
            Some md \<Rightarrow> Some (doc_description (snd md))
          | None \<Rightarrow> None)"
    unfolding docs(2) by (simp add: descriptions_lookup)
  ultimately show "\<exists>root azps_dir descs.
      lookup (argv ! 1) = Some root \<and> find_latest_azps_dir root = Inr azps_dir \<and>
      map_of (out_files out') ''public/data/descriptions.json'' = Some (Descriptions_json descs) \<and>
      distinct (map fst descs) \<and>
      (\<forall>name. map_of descs name =
         (case find (\<lambda>md. doc_name (snd md) = name \<and> doc_description (snd md) \<noteq> [])
                 (rev (documents_of azps_dir)) of
            Some md \<Rightarrow> Some (doc_description (snd md))
          | None \<Rightarrow> None))"
    using root azps by blast
qed

text \<open>
  Claim C9. Without the root argument the program prints the usage line and exits with
  status 1. When the root is a directory with no candidate at either level, the run
  ends with \<^verbatim>\<open>FileNotFoundError\<close> and the files of the output directory are as before
  the run. More generally, no run that does not complete changes a file.
\<close>

theorem main_fatal_errors:
  "(length argv < 2 \<longrightarrow> main argv lookup out = (Exited 1, [Usage_line], out))
   \<and> (\<forall>name entries.
        2 \<le> length argv \<and> lookup (argv ! 1) = Some (Dir name entries) \<and>
        level1 entries = {} \<and> level2 entries = {}
        \<longrightarrow> (\<exists>console out'. main argv lookup out = (Raised FileNotFoundError, console, out') \<and>
               out_files out' = out_files out))
   \<and> (\<forall>oc console out'.
        main argv lookup out = (oc, console, out') \<and> oc \<noteq> Completed
        \<longrightarrow> out_files out' = out_files out)"
proof (intro conjI allI impI)
  assume "length argv < 2"
  then show "main argv lookup out = (Exited 1, [Usage_line], out)" by (rule main_usage)
next
  fix name entries
  assume a: "2 \<le> length argv \<and> lookup (argv ! 1) = Some (Dir name entries) \<and>
        level1 entries = {} \<and> level2 entries = {}"
  then have nf: "find_latest_azps_dir (Dir name entries) = Inl FileNotFoundError"
    using find_latest_azps_dir_not_found by blast
  from a have "\<not> length argv < 2" by simp
  with a have "main argv lookup out =
      (Raised FileNotFoundError, [Scanning_line (argv ! 1)],
       out\<lparr>out_dirs := out_dirs out \<union> {''public'', ''public/data'', ''public/data/modules''}\<rparr>)"
    unfolding main_def Let_def using nf by (simp del: find_latest_azps_dir.simps)
  then show "\<exists>console out'. main argv lookup out = (Raised FileNotFoundError, console, out') \<and>
               out_files out' = out_files out"
    by simp
next
  fix oc console out'
  assume "main argv lookup out = (oc, console, out') \<and> oc \<noteq> Completed"
  then show "out_files out' = out_files out" using main_not_completed by blast
qed

text \<open>
  Claim C10, as amended. In every run that completes, the manifest has exactly one
  entry per accepted document, in processing order, so that two documents with one
  name give two entries; the mapping of a module file holds for a name the value of the
  last document of the module directory with this name; and the description index
  holds for a name the description of the last document with this name whose
  description is not empty.
\<close>

theorem manifest_entry_per_document:
  "main argv lookup out = (Completed, console, out') \<longrightarrow>
   (\<exists>root azps_dir version entries descs.
      lookup (argv ! 1) = Some root \<and> find_latest_azps_dir root = Inr azps_dir \<and>
      map_of (out_files out') ''public/data/manifest.json'' = Some (Manifest_json version entries) \<and>
      entries = map entry_of (documents_of azps_dir) \<and>
      map entry_n entries = map (\<lambda>md. doc_name (snd md)) (documents_of azps_dir) \<and>
      map_of (out_files out') ''public/data/descriptions.json'' = Some (Descriptions_json descs) \<and>
      distinct (map fst descs) \<and>
      (\<forall>name. map_of descs name =
         (case find (\<lambda>md. doc_name (snd md) = name \<and> doc_description (snd md) \<noteq> [])
                 (rev (documents_of azps_dir)) of
            Some md \<Rightarrow> Some (doc_description (snd md))
          | None \<Rightarrow> None)) \<and>
      (\<forall>path data.
         map_of (out_files out') path = Some (Module_json data) \<and>
         map_of (out_files out) path \<noteq> Some (Module_json data) \<longrightarrow>
           (\<exists>mod_dir \<in> set (module_dirs azps_dir).
              data_module data = node_name mod_dir \<and>
              distinct (map fst (data_cmdlets data)) \<and>
              (\<forall>name. map_of (data_cmdlets data) name =
                 (case find (\<lambda>doc. doc_name doc = name) (rev (module_docs mod_dir)) of
                    Some doc \<Rightarrow> Some (info_of doc)
                  | None \<Rightarrow> None)))))"
proof
  assume run: "main argv lookup out = (Completed, console, out')"
  from run obtain root azps_dir mvm agg where
    root: "lookup (argv ! 1) = Some root" and azps: "find_latest_azps_dir root = Inr azps_dir"
    and agg: "scan_modules mvm (sorted_paths (iterdir azps_dir))
       \<lparr>manifest_entries = [], descriptions = [], modules_data = []\<rparr> = Inr agg"
    and files: "out_files out' =
       write_modules (modules_data agg)
         (AList.update ''public/data/descriptions.json'' (Descriptions_json (descriptions agg))
            (AList.update ''public/data/manifest.json''
               (Manifest_json
                  (case search_version (node_name azps_dir) of Some v \<Rightarrow> v | None \<Rightarrow> ''0.0.0'')
                  (manifest_entries agg))
               (out_files out)))"
    by (rule main_completed)
  let ?version = "case search_version (node_name azps_dir) of Some v \<Rightarrow> v | None \<Rightarrow> ''0.0.0''"
  note docs = scan_modules_documents[OF agg]
  have manifest: "map_of (out_files out') ''public/data/manifest.json'' =
      Some (Manifest_json ?version (manifest_entries agg))"
    using files by (rule main_manifest_file)
  have entries: "manifest_entries agg = map entry_of (documents_of azps_dir)" by (rule docs(1))
  then have names: "map entry_n (manifest_entries agg) =
      map (\<lambda>md. doc_name (snd md)) (documents_of azps_dir)"
    by (simp add: entry_of_def comp_def)
  have descs: "map_of (out_files out') ''public/data/descriptions.json'' =
      Some (Descriptions_json (descriptions agg))"
    using files by (rule main_manifest_file)
  have dist: "distinct (map fst (descriptions agg))"
    unfolding docs(2) by (rule distinct_fold_put_description) simp
  have lookup_desc: "\<forall>name. map_of (descriptions agg) name =
         (case find (\<lambda>md. doc_name (snd md) = name \<and> doc_description (snd md) \<noteq> [])
                 (rev (documents_of azps_dir)) of
            Some md \<Rightarrow> Some (doc_description (snd md))
          | None \<Rightarrow> None)"
    unfolding docs(2) by (simp add: descriptions_lookup)
  have modules: "\<exists>mod_dir \<in> set (module_dirs azps_dir).
              data_module data = node_name mod_dir \<and>
              distinct (map fst (data_cmdlets data)) \<and>
              (\<forall>name. map_of (data_cmdlets data) name =
                 (case find (\<lambda>doc. doc_name doc = name) (rev (module_docs mod_dir)) of
                    Some doc \<Rightarrow> Some (info_of doc)
                  | None \<Rightarrow> None))"
    if new: "map_of (out_files out') path = Some (Module_json data) \<and>
         map_of (out_files out) path \<noteq> Some (Module_json data)" for path data
  proof -
    from main_module_file[OF files] new obtain k where "(k, data) \<in> set (modules_data agg)"
      by blast
    then have "(k, data) \<in> set (fold (put_module mvm) (module_dirs azps_dir) [])"
      by (simp add: docs(3))
    from in_fold_put_module[OF this] obtain d where d: "d \<in> set (module_dirs azps_dir)"
      and data: "data = \<lparr>data_module = node_name d,
              data_version = (case map_of mvm (node_name d) of Some v \<Rightarrow> v | None \<Rightarrow> ''0.0.0''),
              data_cmdlets = fold put_cmdlet (module_docs d) []\<rparr>"
      by auto
    have "distinct (map fst (fold put_cmdlet (module_docs d) []))"
      by (rule distinct_fold_put_cmdlet) simp
    moreover have "\<forall>name. map_of (fold put_cmdlet (module_docs d) []) name =
                 (case find (\<lambda>doc. doc_name doc = name) (rev (module_docs d)) of
                    Some doc \<Rightarrow> Some (info_of doc)
                  | None \<Rightarrow> None)"
      by (simp add: map_of_fold_put_cmdlet split: option.splits)
    ultimately show ?thesis using d data by auto
  qed
  from root azps manifest entries names descs dist lookup_desc modules
  show "\<exists>root azps_dir version entries descs.
      lookup (argv ! 1) = Some root \<and> find_latest_azps_dir root = Inr azps_dir \<and>
      map_of (out_files out') ''public/data/manifest.json'' = Some (Manifest_json version entries) \<and>
      entries = map entry_of (documents_of azps_dir) \<and>
      map entry_n entries = map (\<lambda>md. doc_name (snd md)) (documents_of azps_dir) \<and>
      map_of (out_files out') ''public/data/descriptions.json'' = Some (Descriptions_json descs) \<and>
      distinct (map fst descs) \<and>
      (\<forall>name. map_of descs name =
         (case find (\<lambda>md. doc_name (snd md) = name \<and> doc_description (snd md) \<noteq> [])
                 (rev (documents_of azps_dir)) of
            Some md \<Rightarrow> Some (doc_description (snd md))
          | None \<Rightarrow> None)) \<and>
      (\<forall>path data.
         map_of (out_files out') path = Some (Module_json data) \<and>
         map_of (out_files out) path \<noteq> Some (Module_json data) \<longrightarrow>
           (\<exists>mod_dir \<in> set (module_dirs azps_dir).
              data_module data = node_name mod_dir \<and>
              distinct (map fst (data_cmdlets data)) \<and>
              (\<forall>name. map_of (data_cmdlets data) name =
                 (case find (\<lambda>doc. doc_name doc = name) (rev (module_docs mod_dir)) of
                    Some doc \<Rightarrow> Some (info_of doc)
                  | None \<Rightarrow> None))))"
    by blast
qed

end
